theory Spec2Isabelle
  imports Main "HOL-Library.AList"
begin

section \<open>Data model (package workflow, config.go)\<close>

text \<open>
  Go's \<open>interface{}\<close> values that travel between workspaces are JSON values. Numbers are
  only carried, never computed with, so an integer stands for them. A nested JSON object
  is an association list; the top-level Go maps \<open>map[string]interface{}\<close> are partial
  functions (a nil map reads like the empty one).
\<close>

datatype json =
    JNull
  | JBool bool
  | JNumber int
  | JString string
  | JArray "json list"
  | JObject "(string \<times> json) list"

type_synonym vars = "string \<rightharpoonup> json"

record InputMapping =
  SourceWorkspace :: string
  SourceOutput :: string
  TargetVar :: string

record WorkspaceConfig =
  Name :: string
  Kind :: string
  Dir :: string
  TFVars :: string
  DependsOn :: "string list"
  Inputs :: "InputMapping list"
  TaskQueue :: string
  Operations :: "string list"
  ExtraVars :: vars

record InfrastructureConfig =
  WorkspaceRoot :: string
  Workspaces :: "WorkspaceConfig list"

record WorkspaceFinishedSignal =
  sigName :: string
  sigOutputs :: vars

text \<open>The zero value Go returns when a map of workspaces is read at a missing key.\<close>

definition zeroWorkspace :: WorkspaceConfig where
  "zeroWorkspace = \<lparr>Name = [], Kind = [], Dir = [], TFVars = [], DependsOn = [], Inputs = [],
     TaskQueue = [], Operations = [], ExtraVars = Map.empty\<rparr>"

section \<open>Errors of package workflow\<close>

text \<open>
  Every \<open>errors.New\<close> and \<open>fmt.Errorf\<close> of the package is a constructor that keeps the
  values the message is formatted from. An activity's error reaches the workflow code as
  an opaque message.
\<close>

datatype error =
    NoWorkspaces
  | EmptyName
  | DuplicateName string
  | MissingDir string
  | UnsupportedKind string string
  | DependencyCycle string
  | UnknownDependency string string
  | SelfDependency string
  | InputSourceNotFound string string
  | InputNotDependency string string
  | OpsNotImplemented string string
  | UnknownOperationForKind string string
  | InitRequired string
  | ValidateRequired string
  | ValidateBeforeInit string
  | PlanBeforeValidate string
  | ApplyRequiresPlan string
  | ApplyBeforePlan string
  | InitFailed string
  | ValidateFailed string
  | PlanFailed string
  | ApplyFailed string
  | UnknownOperation string
  | ActivityError string

section \<open>ValidateInfrastructureConfig (config.go)\<close>

text \<open>
  \<open>strings.TrimSpace(s) == ""\<close>. A Go string is a sequence of bytes read as UTF-8, and
  \<open>TrimSpace\<close> removes the leading and trailing runes for which \<open>unicode.IsSpace\<close> holds:
  U+0009 to U+000D, U+0020, U+0085, U+00A0, U+1680, U+2000 to U+200A, U+2028, U+2029,
  U+202F, U+205F and U+3000. A byte that starts no valid encoding decodes to U+FFFD, which
  is not a space. So the result is empty exactly when the string is a concatenation of
  the UTF-8 encodings of these runes. \<open>spaceWidth\<close> is the number of bytes of the white-space
  rune a string starts with, 0 when it starts with none.
\<close>

definition spaceWidth :: "string \<Rightarrow> nat" where
  "spaceWidth s =
     (if take 1 s \<in> set [[CHR 0x09], [CHR 0x0A], [CHR 0x0B], [CHR 0x0C], [CHR 0x0D], [CHR 0x20]]
      then 1
      else if take 2 s \<in> set [[CHR 0xC2, CHR 0x85], [CHR 0xC2, CHR 0xA0]]
      then 2
      else if take 3 s \<in> set
          [[CHR 0xE1, CHR 0x9A, CHR 0x80],
           [CHR 0xE2, CHR 0x80, CHR 0x80], [CHR 0xE2, CHR 0x80, CHR 0x81],
           [CHR 0xE2, CHR 0x80, CHR 0x82], [CHR 0xE2, CHR 0x80, CHR 0x83],
           [CHR 0xE2, CHR 0x80, CHR 0x84], [CHR 0xE2, CHR 0x80, CHR 0x85],
           [CHR 0xE2, CHR 0x80, CHR 0x86], [CHR 0xE2, CHR 0x80, CHR 0x87],
           [CHR 0xE2, CHR 0x80, CHR 0x88], [CHR 0xE2, CHR 0x80, CHR 0x89],
           [CHR 0xE2, CHR 0x80, CHR 0x8A],
           [CHR 0xE2, CHR 0x80, CHR 0xA8], [CHR 0xE2, CHR 0x80, CHR 0xA9],
           [CHR 0xE2, CHR 0x80, CHR 0xAF], [CHR 0xE2, CHR 0x81, CHR 0x9F],
           [CHR 0xE3, CHR 0x80, CHR 0x80]]
      then 3
      else 0)"

function blank :: "string \<Rightarrow> bool" where
  "blank s =
     (if s = [] then True
      else if spaceWidth s = 0 then False
      else blank (drop (spaceWidth s) s))"
  by pat_completeness auto

termination blank
  by (relation "measure length") auto

declare blank.simps [simp del]

definition isSupportedKind :: "string \<Rightarrow> bool" where
  "isSupportedKind kind = (kind = [] \<or> kind = ''terraform'')"

text \<open>
  \<open>index\<close> is the Go map from names to workspaces. It is kept as an association list
  with one entry per key; \<open>AList.update\<close> is the assignment \<open>index[k] = v\<close> and a read at
  a missing key gives the zero workspace.
\<close>

type_synonym index = "(string \<times> WorkspaceConfig) list"

definition lookupWs :: "index \<Rightarrow> string \<Rightarrow> WorkspaceConfig" where
  "lookupWs index name = (case map_of index name of None \<Rightarrow> zeroWorkspace | Some ws \<Rightarrow> ws)"

fun indexLoop :: "WorkspaceConfig list \<Rightarrow> index \<Rightarrow> error + index" where
  "indexLoop [] index = Inr index"
| "indexLoop (ws # rest) index =
     (if blank (Name ws) then Inl EmptyName
      else if map_of index (Name ws) \<noteq> None then Inl (DuplicateName (Name ws))
      else if blank (Dir ws) then Inl (MissingDir (Name ws))
      else if \<not> isSupportedKind (if Kind ws = [] then ''terraform'' else Kind ws)
        then Inl (UnsupportedKind (if Kind ws = [] then ''terraform'' else Kind ws) (Name ws))
      else indexLoop rest (AList.update (Name ws) ws index))"

text \<open>
  The closure \<open>dfs\<close> with its two maps \<open>visiting\<close> and \<open>visited\<close> (sets of the names
  mapped to true), passed in and returned; \<open>dfsDeps\<close> is its loop over \<open>ws.DependsOn\<close>.
\<close>

function (domintros) dfs :: "index \<Rightarrow> string \<Rightarrow> string set \<times> string set \<Rightarrow> error + string set \<times> string set"
  and dfsDeps :: "index \<Rightarrow> string list \<Rightarrow> string set \<times> string set \<Rightarrow> error + string set \<times> string set"
where
  "dfs index name (visiting, visited) =
     (if name \<in> visiting then Inl (DependencyCycle name)
      else if name \<in> visited then Inr (visiting, visited)
      else (case dfsDeps index (DependsOn (lookupWs index name)) (insert name visiting, visited) of
              Inl err \<Rightarrow> Inl err
            | Inr (visiting', visited') \<Rightarrow> Inr (visiting' - {name}, insert name visited')))"
| "dfsDeps index [] st = Inr st"
| "dfsDeps index (dep # rest) st =
     (case dfs index dep st of
        Inl err \<Rightarrow> Inl err
      | Inr st' \<Rightarrow> dfsDeps index rest st')"
  by pat_completeness auto

lemma dfs_keeps_visiting_dom:
  "dfs_dfsDeps_dom (Inl (index, name, st)) \<Longrightarrow> dfs index name st = Inr st' \<Longrightarrow> fst st' = fst st"
  "dfs_dfsDeps_dom (Inr (index, deps, st)) \<Longrightarrow> dfsDeps index deps st = Inr st' \<Longrightarrow> fst st' = fst st"
proof (induction index name st and index deps st arbitrary: st' and st' rule: dfs_dfsDeps.pinduct)
  case (1 index name visiting visited)
  then show ?case
    by (auto simp: dfs.psimps split: if_splits sum.splits prod.splits)
next
  case (2 index st)
  then show ?case by (simp add: dfsDeps.psimps)
next
  case (3 index dep rest st)
  then show ?case
    by (auto simp: dfsDeps.psimps split: sum.splits)
qed

termination dfs
proof (relation "inv_image (less_than <*lex*> less_than)
    (\<lambda>c. case c of
       Inl (index, name, st) \<Rightarrow> (card (fst ` set index - fst st), 1::nat)
     | Inr (index, deps, st) \<Rightarrow>
         (card (fst ` set index - fst st), if deps = [] then 0 else 2 + length deps))",
    goal_cases)
  case 1
  show ?case by (intro wf_inv_image wf_lex_prod wf_less_than)
next
  case (2 index name visiting visited)
  show ?case
  proof (cases "name \<in> fst ` set index")
    case True
    have "card (fst ` set index - insert name visiting) < card (fst ` set index - visiting)"
      using True 2(1) by (intro psubset_card_mono) auto
    then show ?thesis by simp
  next
    case False
    then have "map_of index name = None" by (simp add: map_of_eq_None_iff)
    then have "DependsOn (lookupWs index name) = []"
      by (simp add: lookupWs_def zeroWorkspace_def)
    moreover have "fst ` set index - insert name visiting = fst ` set index - visiting"
      using False by auto
    ultimately show ?thesis by simp
  qed
next
  case (3 index dep rest st)
  then show ?case by simp
next
  case (4 index dep rest st st')
  then show ?case
    using dfs_keeps_visiting_dom(1)[of index dep st st'] by simp
qed

text \<open>
  \<open>isTransitivelyDependent\<close> recurses along \<open>DependsOn\<close> with no visited set, so on a
  cyclic index it need not return: the value \<open>None\<close>. \<open>AtWorkspace target\<close> is a call of
  the function, \<open>OverDeps deps\<close> the rest of its loop.
\<close>

datatype itdCall = AtWorkspace string | OverDeps "string list"

partial_function (option) itdRun :: "index \<Rightarrow> string \<Rightarrow> itdCall \<Rightarrow> bool option" where
  "itdRun index source c =
     (case c of
        AtWorkspace target \<Rightarrow>
          (case map_of index target of
             None \<Rightarrow> Some False
           | Some ws \<Rightarrow> itdRun index source (OverDeps (DependsOn ws)))
      | OverDeps deps \<Rightarrow>
          (case deps of
             [] \<Rightarrow> Some False
           | dep # rest \<Rightarrow>
               if dep = source then Some True
               else Option.bind (itdRun index source (AtWorkspace dep))
                      (\<lambda>found. if found then Some True
                                else itdRun index source (OverDeps rest))))"

definition isTransitivelyDependent :: "string \<Rightarrow> string \<Rightarrow> index \<Rightarrow> bool option" where
  "isTransitivelyDependent target source index = itdRun index source (AtWorkspace target)"

fun depsCheck :: "index \<Rightarrow> string \<Rightarrow> string list \<Rightarrow> error option" where
  "depsCheck index name [] = None"
| "depsCheck index name (dep # rest) =
     (if map_of index dep = None then Some (UnknownDependency name dep)
      else if dep = name then Some (SelfDependency name)
      else depsCheck index name rest)"

fun inputsCheck :: "index \<Rightarrow> string \<Rightarrow> InputMapping list \<Rightarrow> error option option" where
  "inputsCheck index name [] = Some None"
| "inputsCheck index name (input # rest) =
     (if map_of index (SourceWorkspace input) = None
      then Some (Some (InputSourceNotFound name (SourceWorkspace input)))
      else (case isTransitivelyDependent name (SourceWorkspace input) index of
              None \<Rightarrow> None
            | Some False \<Rightarrow> Some (Some (InputNotDependency name (SourceWorkspace input)))
            | Some True \<Rightarrow> inputsCheck index name rest))"

fun referencesLoop :: "index \<Rightarrow> WorkspaceConfig list \<Rightarrow> error option option" where
  "referencesLoop index [] = Some None"
| "referencesLoop index (ws # rest) =
     (case depsCheck index (Name ws) (DependsOn ws) of
        Some err \<Rightarrow> Some (Some err)
      | None \<Rightarrow>
          (case inputsCheck index (Name ws) (Inputs ws) of
             None \<Rightarrow> None
           | Some (Some err) \<Rightarrow> Some (Some err)
           | Some None \<Rightarrow> referencesLoop index rest))"

text \<open>The four position variables of \<open>validateTerraformOperations\<close>, each starting at -1.\<close>

definition opIndexStep :: "string \<Rightarrow> int \<Rightarrow> int \<times> int \<times> int \<times> int \<Rightarrow> int \<times> int \<times> int \<times> int" where
  "opIndexStep op i idx =
     (case idx of (initIdx, validateIdx, planIdx, applyIdx) \<Rightarrow>
        if op = ''init'' then (i, validateIdx, planIdx, applyIdx)
        else if op = ''validate'' then (initIdx, i, planIdx, applyIdx)
        else if op = ''plan'' then (initIdx, validateIdx, i, applyIdx)
        else if op = ''apply'' then (initIdx, validateIdx, planIdx, i)
        else idx)"

fun opIndices :: "string list \<Rightarrow> int \<Rightarrow> int \<times> int \<times> int \<times> int \<Rightarrow> int \<times> int \<times> int \<times> int" where
  "opIndices [] i idx = idx"
| "opIndices (op # rest) i idx = opIndices rest (i + 1) (opIndexStep op i idx)"

definition validOps :: "string \<Rightarrow> bool" where
  "validOps op = (op = ''init'' \<or> op = ''validate'' \<or> op = ''plan'' \<or> op = ''apply'')"

definition validateTerraformOperations :: "string \<Rightarrow> string list \<Rightarrow> error option" where
  "validateTerraformOperations name operations =
     (case find (\<lambda>op. \<not> validOps op) operations of
        Some op \<Rightarrow> Some (UnknownOperationForKind name op)
      | None \<Rightarrow>
          (let hasInit = (''init'' \<in> set operations);
               hasValidate = (''validate'' \<in> set operations);
               hasPlan = (''plan'' \<in> set operations);
               hasApply = (''apply'' \<in> set operations)
           in if \<not> hasInit then Some (InitRequired name)
              else if \<not> hasValidate then Some (ValidateRequired name)
              else (case opIndices operations 0 (-1, -1, -1, -1) of
                      (initIdx, validateIdx, planIdx, applyIdx) \<Rightarrow>
                        if validateIdx < initIdx then Some (ValidateBeforeInit name)
                        else if hasPlan \<and> planIdx < validateIdx then Some (PlanBeforeValidate name)
                        else if hasApply then
                          (if \<not> hasPlan then Some (ApplyRequiresPlan name)
                           else if applyIdx < planIdx then Some (ApplyBeforePlan name)
                           else None)
                        else None)))"

definition ValidateWorkspaceOperations :: "WorkspaceConfig \<Rightarrow> error option" where
  "ValidateWorkspaceOperations ws =
     (let kind = (if Kind ws = [] then ''terraform'' else Kind ws)
      in if length (Operations ws) = 0 then None
         else if kind = ''terraform'' then validateTerraformOperations (Name ws) (Operations ws)
         else Some (OpsNotImplemented (Name ws) kind))"

fun operationsLoop :: "WorkspaceConfig list \<Rightarrow> error option" where
  "operationsLoop [] = None"
| "operationsLoop (ws # rest) =
     (case ValidateWorkspaceOperations ws of
        Some err \<Rightarrow> Some err
      | None \<Rightarrow> operationsLoop rest)"

text \<open>
  The result is \<open>Some None\<close> for a valid configuration, \<open>Some (Some err)\<close> for a rejected
  one, and \<open>None\<close> when the function does not return.
\<close>

definition ValidateInfrastructureConfig :: "InfrastructureConfig \<Rightarrow> error option option" where
  "ValidateInfrastructureConfig cfg =
     (if length (Workspaces cfg) = 0 then Some (Some NoWorkspaces)
      else (case indexLoop (Workspaces cfg) [] of
              Inl err \<Rightarrow> Some (Some err)
            | Inr index \<Rightarrow>
                (case dfsDeps index (map Name (Workspaces cfg)) ({}, {}) of
                   Inl err \<Rightarrow> Some (Some err)
                 | Inr _ \<Rightarrow>
                     (case referencesLoop index (Workspaces cfg) of
                        None \<Rightarrow> None
                      | Some (Some err) \<Rightarrow> Some (Some err)
                      | Some None \<Rightarrow> Some (operationsLoop (Workspaces cfg))))))"

section \<open>NormalizeInfrastructureConfig and CalculateDepths (config.go)\<close>

text \<open>
  What the code takes from the operating system and from Go's \<open>path/filepath\<close>,
  \<open>os\<close> packages: they are parameters of the model.
\<close>

record platform =
  pathIsAbs :: "string \<Rightarrow> bool"
  pathJoin :: "string list \<Rightarrow> string"
  pathBase :: "string \<Rightarrow> string"
  pathExt :: "string \<Rightarrow> string"
  getwd :: "string option"
  tempDir :: string

definition getDefaultOperations :: "string \<Rightarrow> string list" where
  "getDefaultOperations kind =
     (if (if kind = [] then ''terraform'' else kind) = ''terraform''
      then [''init'', ''validate'', ''plan'', ''apply'']
      else [])"

definition normalizeWorkspace :: "platform \<Rightarrow> string \<Rightarrow> WorkspaceConfig \<Rightarrow> WorkspaceConfig" where
  "normalizeWorkspace pf base ws0 =
     (let ws1 = (if Kind ws0 = [] then ws0\<lparr>Kind := ''terraform''\<rparr> else ws0);
          ws2 = (if \<not> pathIsAbs pf (Dir ws1) then ws1\<lparr>Dir := pathJoin pf [base, Dir ws1]\<rparr> else ws1);
          ws3 = (if TFVars ws2 \<noteq> [] \<and> \<not> pathIsAbs pf (TFVars ws2)
                 then ws2\<lparr>TFVars := pathJoin pf [base, TFVars ws2]\<rparr> else ws2)
      in if length (Operations ws3) = 0
         then ws3\<lparr>Operations := getDefaultOperations (Kind ws3)\<rparr>
         else ws3)"

definition NormalizeInfrastructureConfig :: "platform \<Rightarrow> InfrastructureConfig \<Rightarrow> InfrastructureConfig" where
  "NormalizeInfrastructureConfig pf cfg =
     (let cwd = (case getwd pf of None \<Rightarrow> ''.'' | Some d \<Rightarrow> d);
          base0 = (if WorkspaceRoot cfg = [] then ''.'' else WorkspaceRoot cfg);
          base = (if \<not> pathIsAbs pf base0 then pathJoin pf [cwd, base0] else base0)
      in cfg\<lparr>Workspaces := map (normalizeWorkspace pf base) (Workspaces cfg)\<rparr>)"

text \<open>The first loop of \<open>CalculateDepths\<close>: \<open>index[ws.Name] = ws\<close>, a later entry replacing
  an earlier one of the same name.\<close>

fun buildIndex :: "WorkspaceConfig list \<Rightarrow> index \<Rightarrow> index" where
  "buildIndex [] index = index"
| "buildIndex (ws # rest) index = buildIndex rest (AList.update (Name ws) ws index)"

text \<open>
  The memoising closure \<open>getDepth\<close>, with the map \<open>depths\<close> passed in and returned. It has
  no guard against a cycle, so it need not return: the value \<open>None\<close>. \<open>GetDepth name\<close> is
  a call, \<open>DepLoop deps maxDepDepth\<close> the rest of its loop over the dependencies.
\<close>

datatype depthCall = GetDepth string | DepLoop "string list" int

partial_function (option) depthRun ::
  "index \<Rightarrow> depthCall \<Rightarrow> (string \<rightharpoonup> int) \<Rightarrow> (int \<times> (string \<rightharpoonup> int)) option" where
  "depthRun index c depths =
     (case c of
        GetDepth name \<Rightarrow>
          (case depths name of
             Some d \<Rightarrow> Some (d, depths)
           | None \<Rightarrow>
               if length (DependsOn (lookupWs index name)) = 0
               then Some (0, depths(name \<mapsto> 0))
               else Option.bind (depthRun index (DepLoop (DependsOn (lookupWs index name)) (- 1)) depths)
                      (\<lambda>r. Some (fst r + 1, (snd r)(name \<mapsto> fst r + 1))))
      | DepLoop deps maxDepDepth \<Rightarrow>
          (case deps of
             [] \<Rightarrow> Some (maxDepDepth, depths)
           | dep # rest \<Rightarrow>
               Option.bind (depthRun index (GetDepth dep) depths)
                 (\<lambda>r. depthRun index
                         (DepLoop rest (if fst r > maxDepDepth then fst r else maxDepDepth))
                         (snd r))))"

fun depthsAll :: "index \<Rightarrow> string list \<Rightarrow> (string \<rightharpoonup> int) \<Rightarrow> (string \<rightharpoonup> int) option" where
  "depthsAll index [] depths = Some depths"
| "depthsAll index (name # rest) depths =
     (case depthRun index (GetDepth name) depths of
        None \<Rightarrow> None
      | Some r \<Rightarrow> depthsAll index rest (snd r))"

definition CalculateDepths :: "WorkspaceConfig list \<Rightarrow> (string \<rightharpoonup> int) option" where
  "CalculateDepths workspaces =
     depthsAll (buildIndex workspaces []) (map Name workspaces) Map.empty"

section \<open>startWorkspace, step 1: resolving inputs (parent_workflow.go)\<close>

text \<open>
  \<open>workspaceOutputs[mapping.SourceWorkspace]\<close> is a nil map when the source has stored
  nothing; reading \<open>mapping.SourceOutput\<close> from it then reports \<open>ok = false\<close>.
\<close>

definition sourceValue :: "(string \<rightharpoonup> vars) \<Rightarrow> InputMapping \<Rightarrow> json option" where
  "sourceValue workspaceOutputs mapping =
     (case workspaceOutputs (SourceWorkspace mapping) of
        None \<Rightarrow> None
      | Some sourceOuts \<Rightarrow> sourceOuts (SourceOutput mapping))"

fun resolveLoop :: "(string \<rightharpoonup> vars) \<Rightarrow> InputMapping list \<Rightarrow> vars \<Rightarrow> vars" where
  "resolveLoop workspaceOutputs [] extra = extra"
| "resolveLoop workspaceOutputs (mapping # rest) extra =
     (case sourceValue workspaceOutputs mapping of
        Some val \<Rightarrow> resolveLoop workspaceOutputs rest (extra(TargetVar mapping \<mapsto> val))
      | None \<Rightarrow> resolveLoop workspaceOutputs rest extra)"

definition resolveInputs :: "(string \<rightharpoonup> vars) \<Rightarrow> WorkspaceConfig \<Rightarrow> WorkspaceConfig" where
  "resolveInputs workspaceOutputs ws =
     (if length (Inputs ws) > 0
      then ws\<lparr>ExtraVars := resolveLoop workspaceOutputs (Inputs ws) (ExtraVars ws)\<rparr>
      else ws)"

section \<open>startWorkspace, step 2: choosing the host\<close>

text \<open>\<open>depths[dep]\<close> on a Go map: a missing key reads as 0.\<close>

definition depthOf :: "(string \<rightharpoonup> int) \<Rightarrow> string \<Rightarrow> int" where
  "depthOf depths name = (case depths name of None \<Rightarrow> 0 | Some d \<Rightarrow> d)"

fun hostLoop :: "(string \<rightharpoonup> int) \<Rightarrow> string list \<Rightarrow> string \<times> int \<Rightarrow> string \<times> int" where
  "hostLoop depths [] (hostName, maxDepth) = (hostName, maxDepth)"
| "hostLoop depths (dep # rest) (hostName, maxDepth) =
     (if depthOf depths dep > maxDepth
      then hostLoop depths rest (dep, depthOf depths dep)
      else hostLoop depths rest (hostName, maxDepth))"

text \<open>
  The host of a workspace with dependencies; \<open>None\<close> stands for the branch the source
  guards with \<open>len(ws.DependsOn) > 0\<close> (no host is chosen).
\<close>

definition chooseHost :: "(string \<rightharpoonup> int) \<Rightarrow> string list \<Rightarrow> string option" where
  "chooseHost depths deps =
     (case deps of
        [] \<Rightarrow> None
      | first # _ \<Rightarrow> Some (fst (hostLoop depths deps (first, depthOf depths first))))"


section \<open>ParentWorkflow (parent_workflow.go)\<close>

text \<open>
  What the workflow runtime decides: the run id of the orchestration, whether a
  \<open>start-child\<close> signal to a host (by workflow id, for a workspace name) is delivered, and
  what the future of a root child (by workspace name) resolves to.
\<close>

record runtime =
  runID :: string
  signalOK :: "string \<Rightarrow> string \<Rightarrow> bool"
  futureGet :: "string \<Rightarrow> error option"

text \<open>What the orchestrator does that the outside can see, in order.\<close>

datatype event =
    ExecuteChildWorkflow string string WorkspaceConfig
  | SignalStartChild string WorkspaceConfig bool
  | ReceivedFinished string
  | SignalShutdown string
  | AwaitedRoot string

text \<open>
  The four maps of the run. \<open>completedWorkspaces\<close> holds the keys mapped to true (its
  \<open>len\<close> is the length of the list); \<open>runningWorkflows\<close> and \<open>rootFutures\<close> are ranged
  over, so they are association lists (Go ranges over a map in no fixed order; the order
  of insertion stands for it). A future is named by the id of its child workflow.
\<close>

record pstate =
  completedWorkspaces :: "string list"
  workspaceOutputs :: "string \<rightharpoonup> vars"
  runningWorkflows :: "(string \<times> string) list"
  rootFutures :: "(string \<times> string) list"
  events :: "event list"

definition childWorkflowID :: "string \<Rightarrow> string \<Rightarrow> string" where
  "childWorkflowID rid name = ''iac-'' @ rid @ ''-'' @ name"

definition startRoot :: "runtime \<Rightarrow> WorkspaceConfig \<Rightarrow> pstate \<Rightarrow> pstate" where
  "startRoot rt ws st =
     st\<lparr>rootFutures := AList.update (Name ws) (childWorkflowID (runID rt) (Name ws)) (rootFutures st),
        runningWorkflows :=
          AList.update (Name ws) (childWorkflowID (runID rt) (Name ws)) (runningWorkflows st),
        events := events st @
          [ExecuteChildWorkflow (childWorkflowID (runID rt) (Name ws)) (TaskQueue ws) ws]\<rparr>"

definition isRunning :: "string \<Rightarrow> (string \<times> string) list \<Rightarrow> bool" where
  "isRunning name running = (map_of running name \<noteq> None)"

definition allDependenciesMet :: "WorkspaceConfig \<Rightarrow> string list \<Rightarrow> bool" where
  "allDependenciesMet ws completed = list_all (\<lambda>dep. dep \<in> set completed) (DependsOn ws)"

definition startWorkspace ::
  "runtime \<Rightarrow> (string \<rightharpoonup> int) \<Rightarrow> WorkspaceConfig \<Rightarrow> pstate \<Rightarrow> pstate" where
  "startWorkspace rt depths ws0 st =
     (let ws = resolveInputs (workspaceOutputs st) ws0
      in case chooseHost depths (DependsOn ws) of
           None \<Rightarrow> startRoot rt ws st
         | Some hostName \<Rightarrow>
             (let hostID = (case map_of (runningWorkflows st) hostName of
                              None \<Rightarrow> [] | Some wid \<Rightarrow> wid)
              in if signalOK rt hostID (Name ws)
                 then st\<lparr>runningWorkflows :=
                          AList.update (Name ws) (childWorkflowID (runID rt) (Name ws))
                            (runningWorkflows st),
                        events := events st @ [SignalStartChild hostID ws True]\<rparr>
                 else startRoot rt ws
                        (st\<lparr>events := events st @ [SignalStartChild hostID ws False]\<rparr>)))"

fun startRootsLoop :: "runtime \<Rightarrow> WorkspaceConfig list \<Rightarrow> pstate \<Rightarrow> pstate" where
  "startRootsLoop rt [] st = st"
| "startRootsLoop rt (ws # rest) st =
     startRootsLoop rt rest (if length (DependsOn ws) = 0 then startRoot rt ws st else st)"

fun triggerLoop ::
  "runtime \<Rightarrow> (string \<rightharpoonup> int) \<Rightarrow> WorkspaceConfig list \<Rightarrow> pstate \<Rightarrow> pstate" where
  "triggerLoop rt depths [] st = st"
| "triggerLoop rt depths (ws # rest) st =
     triggerLoop rt depths rest
       (if Name ws \<in> set (completedWorkspaces st) \<or> isRunning (Name ws) (runningWorkflows st)
        then st
        else if allDependenciesMet ws (completedWorkspaces st)
        then startWorkspace rt depths ws st
        else st)"

definition handleFinished ::
  "runtime \<Rightarrow> (string \<rightharpoonup> int) \<Rightarrow> WorkspaceConfig list \<Rightarrow> WorkspaceFinishedSignal \<Rightarrow> pstate
     \<Rightarrow> pstate" where
  "handleFinished rt depths workspaces signal st =
     triggerLoop rt depths workspaces
       (st\<lparr>completedWorkspaces := List.insert (sigName signal) (completedWorkspaces st),
           workspaceOutputs := (workspaceOutputs st)(sigName signal \<mapsto> sigOutputs signal),
           events := events st @ [ReceivedFinished (sigName signal)]\<rparr>)"

text \<open>
  The orchestration loop over the \<open>workspace-finished\<close> signals in their order of
  delivery. The flag tells whether the loop was left; when the signals run out first the
  workflow stays in \<open>selector.Select\<close>.
\<close>

fun orchestrationLoop ::
  "runtime \<Rightarrow> (string \<rightharpoonup> int) \<Rightarrow> WorkspaceConfig list \<Rightarrow> WorkspaceFinishedSignal list
     \<Rightarrow> pstate \<Rightarrow> pstate \<times> bool" where
  "orchestrationLoop rt depths workspaces signals st =
     (if length (completedWorkspaces st) < length workspaces
      then (case signals of
              [] \<Rightarrow> (st, False)
            | signal # rest \<Rightarrow>
                orchestrationLoop rt depths workspaces rest
                  (handleFinished rt depths workspaces signal st))
      else (st, True))"

fun shutdownLoop :: "(string \<times> string) list \<Rightarrow> event list" where
  "shutdownLoop [] = []"
| "shutdownLoop ((name, wid) # rest) = SignalShutdown wid # shutdownLoop rest"

fun awaitRoots :: "runtime \<Rightarrow> (string \<times> string) list \<Rightarrow> error option \<Rightarrow> error option" where
  "awaitRoots rt [] firstErr = firstErr"
| "awaitRoots rt ((name, future) # rest) firstErr =
     awaitRoots rt rest
       (case futureGet rt name of
          None \<Rightarrow> firstErr
        | Some err \<Rightarrow> (if firstErr = None then Some err else firstErr))"

datatype outcome = Returned "error option" | AwaitingSignal | NoReturn

definition emptyState :: pstate where
  "emptyState = \<lparr>completedWorkspaces = [], workspaceOutputs = Map.empty,
     runningWorkflows = [], rootFutures = [], events = []\<rparr>"

definition ParentWorkflow ::
  "platform \<Rightarrow> runtime \<Rightarrow> InfrastructureConfig \<Rightarrow> WorkspaceFinishedSignal list
     \<Rightarrow> event list \<times> outcome" where
  "ParentWorkflow pf rt rawConfig signals =
     (case ValidateInfrastructureConfig rawConfig of
        None \<Rightarrow> ([], NoReturn)
      | Some (Some err) \<Rightarrow> ([], Returned (Some err))
      | Some None \<Rightarrow>
          (let config = NormalizeInfrastructureConfig pf rawConfig
           in case CalculateDepths (Workspaces config) of
                None \<Rightarrow> ([], NoReturn)
              | Some depths \<Rightarrow>
                  (case orchestrationLoop rt depths (Workspaces config) signals
                          (startRootsLoop rt (Workspaces config) emptyState) of
                     (st, False) \<Rightarrow> (events st, AwaitingSignal)
                   | (st, True) \<Rightarrow>
                       (events st @ shutdownLoop (runningWorkflows st)
                          @ map (\<lambda>f. AwaitedRoot (fst f)) (rootFutures st),
                        Returned (awaitRoots rt (rootFutures st) None)))))"

section \<open>TerraformWorkflow (terraform_workflow.go)\<close>

record execution =
  exID :: string
  exRunID :: string

record wfinfo =
  WorkflowExecution :: execution
  ParentWorkflowExecution :: "execution option"
  RootWorkflowExecution :: "execution option"

record TerraformParams =
  pDir :: string
  pTFVars :: string
  PlanFile :: string
  Vars :: vars
  RunID :: string

definition rootRunID :: "wfinfo \<Rightarrow> string" where
  "rootRunID info =
     (case RootWorkflowExecution info of
        None \<Rightarrow> exRunID (WorkflowExecution info)
      | Some root \<Rightarrow> exRunID root)"

definition workflowParams :: "wfinfo \<Rightarrow> WorkspaceConfig \<Rightarrow> TerraformParams" where
  "workflowParams info ws =
     \<lparr>pDir = Dir ws, pTFVars = TFVars ws,
      PlanFile = ''tfplan-'' @ exRunID (WorkflowExecution info) @ ''-'' @ Name ws @ ''.plan'',
      Vars = ExtraVars ws, RunID = rootRunID info\<rparr>"

definition orchestratorID :: "wfinfo \<Rightarrow> string" where
  "orchestratorID info =
     (case RootWorkflowExecution info of
        Some root \<Rightarrow> exID root
      | None \<Rightarrow> (case ParentWorkflowExecution info of None \<Rightarrow> [] | Some parent \<Rightarrow> exID parent))"

text \<open>
  The activities as the workflow code sees them: the runtime runs each with its retries
  and hands back a result. The result may differ from one invocation to the next, so it
  is a function of the number of activities invoked before.
\<close>

datatype activity = TerraformInit | TerraformValidate | TerraformPlan | TerraformApply
  | TerraformOutput

record activities =
  initResult :: "nat \<Rightarrow> string option"
  validateResult :: "nat \<Rightarrow> string option"
  planResult :: "nat \<Rightarrow> string + bool"
  applyResult :: "nat \<Rightarrow> string option"
  outputResult :: "nat \<Rightarrow> string + vars"

text \<open>
  One turn of the loop over \<open>ws.Operations\<close>: the state is \<open>changesPresent\<close> and the
  activities invoked so far; \<open>Inl\<close> is the early return with an error.
\<close>

definition operationStep ::
  "activities \<Rightarrow> string \<Rightarrow> bool \<times> activity list \<Rightarrow> (error \<times> activity list) + (bool \<times> activity list)" where
  "operationStep acts op st =
     (case st of (changesPresent, calls) \<Rightarrow>
        if op = ''init'' then
          (case initResult acts (length calls) of
             Some err \<Rightarrow> Inl (InitFailed err, calls @ [TerraformInit])
           | None \<Rightarrow> Inr (changesPresent, calls @ [TerraformInit]))
        else if op = ''validate'' then
          (case validateResult acts (length calls) of
             Some err \<Rightarrow> Inl (ValidateFailed err, calls @ [TerraformValidate])
           | None \<Rightarrow> Inr (changesPresent, calls @ [TerraformValidate]))
        else if op = ''plan'' then
          (case planResult acts (length calls) of
             Inl err \<Rightarrow> Inl (PlanFailed err, calls @ [TerraformPlan])
           | Inr changes \<Rightarrow> Inr (changes, calls @ [TerraformPlan]))
        else if op = ''apply'' then
          (if \<not> changesPresent then Inr (changesPresent, calls)
           else (case applyResult acts (length calls) of
                   Some err \<Rightarrow> Inl (ApplyFailed err, calls @ [TerraformApply])
                 | None \<Rightarrow> Inr (changesPresent, calls @ [TerraformApply])))
        else Inl (UnknownOperation op, calls))"

fun operationsRun ::
  "activities \<Rightarrow> string list \<Rightarrow> bool \<times> activity list \<Rightarrow> (error \<times> activity list) + (bool \<times> activity list)" where
  "operationsRun acts [] st = Inr st"
| "operationsRun acts (op # rest) st =
     (case operationStep acts op st of
        Inl failed \<Rightarrow> Inl failed
      | Inr st' \<Rightarrow> operationsRun acts rest st')"

text \<open>
  The closure \<open>runTerraform\<close>: the activities invoked, the outputs (a nil map when an
  error is returned) and the error.
\<close>

definition runTerraform :: "activities \<Rightarrow> string list \<Rightarrow> activity list \<times> vars \<times> error option" where
  "runTerraform acts operations =
     (case operationsRun acts operations (False, []) of
        Inl (err, calls) \<Rightarrow> (calls, Map.empty, Some err)
      | Inr (changesPresent, calls) \<Rightarrow>
          (case outputResult acts (length calls) of
             Inl err \<Rightarrow> (calls @ [TerraformOutput], Map.empty, Some (ActivityError err))
           | Inr outputs \<Rightarrow> (calls @ [TerraformOutput], outputs, None)))"

text \<open>The closure \<open>signalParent\<close>: the signals sent, each with the workflow id it goes to.\<close>

definition signalParent ::
  "wfinfo \<Rightarrow> WorkspaceConfig \<Rightarrow> vars \<Rightarrow> (string \<times> WorkspaceFinishedSignal) list" where
  "signalParent info ws outs =
     (if orchestratorID info = [] then []
      else [(orchestratorID info, \<lparr>sigName = Name ws, sigOutputs = outs\<rparr>)])"

text \<open>
  Hosting mode. What the selector hands to the workflow, in order: a \<open>start-child\<close>
  signal, a \<open>shutdown\<close> signal, or the future of a child resolving.
\<close>

datatype hostEvent = StartChild WorkspaceConfig | Shutdown | ChildDone "error option"

datatype hostAction =
    ExecuteChild string string WorkspaceConfig
  | LogChildFailed error

record hosting =
  activeChildren :: int
  shouldShutdown :: bool
  actions :: "hostAction list"

definition hostStep :: "string \<Rightarrow> hostEvent \<Rightarrow> hosting \<Rightarrow> hosting" where
  "hostStep rid ev h =
     (case ev of
        StartChild ws \<Rightarrow>
          h\<lparr>activeChildren := activeChildren h + 1,
            actions := actions h @ [ExecuteChild (childWorkflowID rid (Name ws)) (TaskQueue ws) ws]\<rparr>
      | Shutdown \<Rightarrow> h\<lparr>shouldShutdown := True\<rparr>
      | ChildDone None \<Rightarrow> h\<lparr>activeChildren := activeChildren h - 1\<rparr>
      | ChildDone (Some err) \<Rightarrow>
          h\<lparr>activeChildren := activeChildren h - 1, actions := actions h @ [LogChildFailed err]\<rparr>)"

text \<open>The loop \<open>for { selector.Select(ctx); if shouldShutdown && activeChildren == 0 { break } }\<close>;
  the flag tells whether it was left.\<close>

fun hostingLoop :: "string \<Rightarrow> hostEvent list \<Rightarrow> hosting \<Rightarrow> hosting \<times> bool" where
  "hostingLoop rid [] h = (h, False)"
| "hostingLoop rid (ev # rest) h =
     (if shouldShutdown (hostStep rid ev h) \<and> activeChildren (hostStep rid ev h) = 0
      then (hostStep rid ev h, True)
      else hostingLoop rid rest (hostStep rid ev h))"

datatype wfoutcome = WorkflowReturned "error + vars" | Hosting

record wfrun =
  invoked :: "activity list"
  sent :: "(string \<times> WorkspaceFinishedSignal) list"
  hostActions :: "hostAction list"
  returned :: wfoutcome

definition TerraformWorkflow ::
  "activities \<Rightarrow> wfinfo \<Rightarrow> WorkspaceConfig \<Rightarrow> hostEvent list \<Rightarrow> wfrun" where
  "TerraformWorkflow acts info ws inbox =
     (case runTerraform acts (Operations ws) of
        (calls, outputs, err) \<Rightarrow>
          (case err of
             Some e \<Rightarrow>
               \<lparr>invoked = calls, sent = signalParent info ws outputs, hostActions = [],
                returned = WorkflowReturned (Inl e)\<rparr>
           | None \<Rightarrow>
               if orchestratorID info = []
               then \<lparr>invoked = calls, sent = signalParent info ws outputs, hostActions = [],
                     returned = WorkflowReturned (Inr outputs)\<rparr>
               else (case hostingLoop (rootRunID info) inbox
                            \<lparr>activeChildren = 0, shouldShutdown = False, actions = []\<rparr> of
                       (h, left) \<Rightarrow>
                         \<lparr>invoked = calls, sent = signalParent info ws outputs,
                          hostActions = actions h,
                          returned = (if left then WorkflowReturned (Inr outputs) else Hosting)\<rparr>)))"

section \<open>Scenarios\<close>

text \<open>Concrete workspaces, runtimes and activity results the properties are evaluated on.\<close>

definition failingInit :: activities where
  "failingInit = \<lparr>initResult = (\<lambda>n. Some ''boom''), validateResult = (\<lambda>n. None),
     planResult = (\<lambda>n. Inr True), applyResult = (\<lambda>n. None),
     outputResult = (\<lambda>n. Inr Map.empty)\<rparr>"

definition hostedInfo :: wfinfo where
  "hostedInfo = \<lparr>WorkflowExecution = \<lparr>exID = ''iac-r1-subnets'', exRunID = ''r7''\<rparr>,
     ParentWorkflowExecution = Some \<lparr>exID = ''iac-r1-vpc'', exRunID = ''r3''\<rparr>,
     RootWorkflowExecution = Some \<lparr>exID = ''orchestrator'', exRunID = ''r1''\<rparr>\<rparr>"

definition subnetsWs :: WorkspaceConfig where
  "subnetsWs = \<lparr>Name = ''subnets'', Kind = ''terraform'', Dir = ''/w/subnets'', TFVars = [],
     DependsOn = [''vpc''], Inputs = [], TaskQueue = [],
     Operations = [''init'', ''validate'', ''plan'', ''apply''], ExtraVars = Map.empty\<rparr>"




text \<open>The workspace an event hands to an executor, if it launches one.\<close>

fun launched :: "event \<Rightarrow> WorkspaceConfig option" where
  "launched (ExecuteChildWorkflow wid queue ws) = Some ws"
| "launched (SignalStartChild hostID ws delivered) = Some ws"
| "launched (ReceivedFinished name) = None"
| "launched (SignalShutdown wid) = None"
| "launched (AwaitedRoot name) = None"

definition twoSources :: "string \<rightharpoonup> vars" where
  "twoSources = [''a'' \<mapsto> [''x'' \<mapsto> JString ''1''], ''b'' \<mapsto> [''y'' \<mapsto> JNumber 2]]"

definition mapA :: InputMapping where
  "mapA = \<lparr>SourceWorkspace = ''a'', SourceOutput = ''x'', TargetVar = ''v''\<rparr>"

definition mapB :: InputMapping where
  "mapB = \<lparr>SourceWorkspace = ''b'', SourceOutput = ''y'', TargetVar = ''v''\<rparr>"

definition mapMissing :: InputMapping where
  "mapMissing = \<lparr>SourceWorkspace = ''a'', SourceOutput = ''nope'', TargetVar = ''w''\<rparr>"

definition consumerWs :: WorkspaceConfig where
  "consumerWs = \<lparr>Name = ''c'', Kind = ''terraform'', Dir = ''/w/c'', TFVars = [],
     DependsOn = [''a'', ''b''], Inputs = [mapA, mapB, mapMissing], TaskQueue = [],
     Operations = [], ExtraVars = Map.empty\<rparr>"

definition deliveringRuntime :: runtime where
  "deliveringRuntime = \<lparr>runID = ''r1'', signalOK = (\<lambda>hostID name. True),
     futureGet = (\<lambda>name. None)\<rparr>"

definition afterAB :: pstate where
  "afterAB = \<lparr>completedWorkspaces = [''b'', ''a''], workspaceOutputs = twoSources,
     runningWorkflows = [(''a'', ''iac-r1-a''), (''b'', ''iac-r1-b'')],
     rootFutures = [(''a'', ''iac-r1-a''), (''b'', ''iac-r1-b'')], events = []\<rparr>"

definition rootWs :: "string \<Rightarrow> WorkspaceConfig" where
  "rootWs name = \<lparr>Name = name, Kind = [], Dir = ''/w/'' @ name, TFVars = [],
     DependsOn = [], Inputs = [], TaskQueue = [], Operations = [], ExtraVars = Map.empty\<rparr>"

definition fanInConfig :: InfrastructureConfig where
  "fanInConfig = \<lparr>WorkspaceRoot = [], Workspaces = [rootWs ''a'', rootWs ''b'', consumerWs]\<rparr>"

text \<open>
  The dependency graph an index stands for: an edge from a name to each entry of the
  \<open>DependsOn\<close> the index gives for it.
\<close>

definition succs :: "index \<Rightarrow> string \<Rightarrow> string set" where
  "succs index name = set (DependsOn (lookupWs index name))"

definition depEdges :: "index \<Rightarrow> (string \<times> string) set" where
  "depEdges index = {(name, dep). dep \<in> succs index name}"

definition closedUnder :: "index \<Rightarrow> string set \<Rightarrow> bool" where
  "closedUnder index S = (\<forall>n \<in> S. succs index n \<subseteq> S)"

text \<open>What the \<open>visited\<close> map of a \<open>dfs\<close> that has not failed holds: a set closed under
  dependencies with no member on a cycle.\<close>

definition goodVisited :: "index \<Rightarrow> string set \<Rightarrow> bool" where
  "goodVisited index S = (closedUnder index S \<and> (\<forall>n \<in> S. (n, n) \<notin> (depEdges index)\<^sup>+))"

text \<open>The dependency relation of a configuration, read off its workspaces.\<close>

definition configEdges :: "WorkspaceConfig list \<Rightarrow> (string \<times> string) set" where
  "configEdges workspaces = {(name, dep). \<exists>ws \<in> set workspaces. name = Name ws \<and> dep \<in> set (DependsOn ws)}"

definition cycleAB :: InfrastructureConfig where
  "cycleAB = \<lparr>WorkspaceRoot = [],
     Workspaces = [(rootWs ''a'')\<lparr>DependsOn := [''b'']\<rparr>, (rootWs ''b'')\<lparr>DependsOn := [''a'']\<rparr>]\<rparr>"

definition cycleNoDir :: InfrastructureConfig where
  "cycleNoDir = \<lparr>WorkspaceRoot = [],
     Workspaces = [(rootWs ''a'')\<lparr>DependsOn := [''b''], Dir := []\<rparr>,
                   (rootWs ''b'')\<lparr>DependsOn := [''a'']\<rparr>]\<rparr>"

text \<open>A platform for the scenarios: Unix paths, with a plain join.\<close>

definition unixPlatform :: platform where
  "unixPlatform = \<lparr>pathIsAbs = (\<lambda>p. p \<noteq> [] \<and> hd p = CHR ''/''),
     pathJoin = (\<lambda>ps. foldr (\<lambda>p acc. if acc = [] then p else p @ ''/'' @ acc) ps []),
     pathBase = (\<lambda>p. rev (takeWhile (\<lambda>c. c \<noteq> CHR ''/'') (rev p))),
     pathExt = (\<lambda>p. if CHR ''.'' \<in> set p
                     then CHR ''.'' # rev (takeWhile (\<lambda>c. c \<noteq> CHR ''.'') (rev p)) else []),
     getwd = Some ''/home'', tempDir = ''/tmp''\<rparr>"

text \<open>
  What a finished depth map satisfies at one name: the depth is 0 for a workspace without
  dependencies, and otherwise every dependency has a depth and the depth is one more than
  the greatest of them.
\<close>

definition entryOK :: "index \<Rightarrow> (string \<rightharpoonup> int) \<Rightarrow> string \<Rightarrow> int \<Rightarrow> bool" where
  "entryOK index depths name k =
     (0 \<le> k \<and>
      (if DependsOn (lookupWs index name) = [] then k = 0
       else set (DependsOn (lookupWs index name)) \<subseteq> dom depths
            \<and> k = 1 + Max (depthOf depths ` set (DependsOn (lookupWs index name)))))"

text \<open>The invariant of the memo map: every entry it holds is final.\<close>

definition consistentDepths :: "index \<Rightarrow> (string \<rightharpoonup> int) \<Rightarrow> bool" where
  "consistentDepths index depths = (\<forall>name k. depths name = Some k \<longrightarrow> entryOK index depths name k)"

text \<open>A chain with a shortcut: \<open>b\<close> depends on \<open>a\<close>, and \<open>c\<close> on \<open>a\<close> and \<open>b\<close>.\<close>

definition chainConfig :: InfrastructureConfig where
  "chainConfig = \<lparr>WorkspaceRoot = [], Workspaces =
     [rootWs ''a'', (rootWs ''b'')\<lparr>DependsOn := [''a'']\<rparr>,
      (rootWs ''c'')\<lparr>DependsOn := [''a'', ''b'']\<rparr>]\<rparr>"




chapter \<open>Properties\<close>

section \<open>Input resolution: what the started executor receives\<close>

lemma resolveLoop_append:
  "resolveLoop outs (xs @ ys) extra = resolveLoop outs ys (resolveLoop outs xs extra)"
  by (induction xs arbitrary: extra) (auto split: option.splits)

lemma resolveLoop_untouched:
  "(\<forall>m \<in> set ms. TargetVar m = t \<longrightarrow> sourceValue outs m = None)
   \<Longrightarrow> resolveLoop outs ms extra t = extra t"
  by (induction ms arbitrary: extra) (auto split: option.splits)

lemma resolveLoop_skip:
  "sourceValue outs mapping = None
   \<Longrightarrow> resolveLoop outs (pre @ mapping # post) extra = resolveLoop outs (pre @ post) extra"
  by (simp add: resolveLoop_append)

lemma resolveLoop_present:
  assumes "sourceValue outs mapping = Some val"
    and "\<forall>m \<in> set post. TargetVar m = TargetVar mapping \<longrightarrow> sourceValue outs m = None"
  shows "resolveLoop outs (pre @ mapping # post) extra (TargetVar mapping) = Some val"
  using assms by (simp add: resolveLoop_append resolveLoop_untouched)

section \<open>Host choice: the first dependency of greatest depth\<close>

lemma hostLoop_first_max:
  "hostLoop depths rest (h, m) = (h', m') \<Longrightarrow> m = depthOf depths h \<Longrightarrow>
     m' = depthOf depths h' \<and>
     ((h' = h \<and> (\<forall>d \<in> set rest. depthOf depths d \<le> m)) \<or>
      (\<exists>pre post. rest = pre @ h' # post \<and> m < m' \<and>
         (\<forall>d \<in> set pre. depthOf depths d < m') \<and>
         (\<forall>d \<in> set post. depthOf depths d \<le> m')))"
proof (induction rest arbitrary: h m)
  case Nil
  then show ?case by auto
next
  case (Cons dep rest)
  show ?case
  proof (cases "depthOf depths dep > m")
    case True
    with Cons.prems have run: "hostLoop depths rest (dep, depthOf depths dep) = (h', m')"
      by simp
    from Cons.IH[OF run refl] have m': "m' = depthOf depths h'"
      and alt: "(h' = dep \<and> (\<forall>d \<in> set rest. depthOf depths d \<le> depthOf depths dep)) \<or>
        (\<exists>pre post. rest = pre @ h' # post \<and> depthOf depths dep < m' \<and>
           (\<forall>d \<in> set pre. depthOf depths d < m') \<and>
           (\<forall>d \<in> set post. depthOf depths d \<le> m'))"
      by auto
    from alt show ?thesis
    proof
      assume a: "h' = dep \<and> (\<forall>d \<in> set rest. depthOf depths d \<le> depthOf depths dep)"
      then have "dep # rest = [] @ h' # rest \<and> m < m' \<and>
          (\<forall>d \<in> set []. depthOf depths d < m') \<and>
          (\<forall>d \<in> set rest. depthOf depths d \<le> m')"
        using True m' by simp
      then show ?thesis using m' by blast
    next
      assume "\<exists>pre post. rest = pre @ h' # post \<and> depthOf depths dep < m' \<and>
           (\<forall>d \<in> set pre. depthOf depths d < m') \<and>
           (\<forall>d \<in> set post. depthOf depths d \<le> m')"
      then obtain pre post where p: "rest = pre @ h' # post" "depthOf depths dep < m'"
        "\<forall>d \<in> set pre. depthOf depths d < m'" "\<forall>d \<in> set post. depthOf depths d \<le> m'"
        by blast
      then have "dep # rest = (dep # pre) @ h' # post \<and> m < m' \<and>
          (\<forall>d \<in> set (dep # pre). depthOf depths d < m') \<and>
          (\<forall>d \<in> set post. depthOf depths d \<le> m')"
        using True by auto
      then show ?thesis using m' by blast
    qed
  next
    case False
    with Cons.prems have run: "hostLoop depths rest (h, m) = (h', m')"
      by simp
    from Cons.IH[OF run Cons.prems(2)] have m': "m' = depthOf depths h'"
      and alt: "(h' = h \<and> (\<forall>d \<in> set rest. depthOf depths d \<le> m)) \<or>
        (\<exists>pre post. rest = pre @ h' # post \<and> m < m' \<and>
           (\<forall>d \<in> set pre. depthOf depths d < m') \<and>
           (\<forall>d \<in> set post. depthOf depths d \<le> m'))"
      by auto
    from alt show ?thesis
    proof
      assume "h' = h \<and> (\<forall>d \<in> set rest. depthOf depths d \<le> m)"
      then show ?thesis using False m' by auto
    next
      assume "\<exists>pre post. rest = pre @ h' # post \<and> m < m' \<and>
           (\<forall>d \<in> set pre. depthOf depths d < m') \<and>
           (\<forall>d \<in> set post. depthOf depths d \<le> m')"
      then obtain pre post where p: "rest = pre @ h' # post" "m < m'"
        "\<forall>d \<in> set pre. depthOf depths d < m'" "\<forall>d \<in> set post. depthOf depths d \<le> m'"
        by blast
      then have "dep # rest = (dep # pre) @ h' # post \<and> m < m' \<and>
          (\<forall>d \<in> set (dep # pre). depthOf depths d < m') \<and>
          (\<forall>d \<in> set post. depthOf depths d \<le> m')"
        using False by auto
      then show ?thesis using m' by blast
    qed
  qed
qed

lemma chooseHost_first_max:
  assumes "deps \<noteq> []"
  shows "\<exists>host pre post. chooseHost depths deps = Some host \<and> deps = pre @ host # post \<and>
           (\<forall>d \<in> set pre. depthOf depths d < depthOf depths host) \<and>
           (\<forall>d \<in> set post. depthOf depths d \<le> depthOf depths host)"
proof -
  from assms obtain first rest where deps: "deps = first # rest"
    by (cases deps) auto
  obtain h' m' where run: "hostLoop depths rest (first, depthOf depths first) = (h', m')"
    by (cases "hostLoop depths rest (first, depthOf depths first)") auto
  have host: "chooseHost depths deps = Some h'"
    using run by (simp add: chooseHost_def deps)
  from hostLoop_first_max[OF run refl] have m': "m' = depthOf depths h'"
    and alt: "(h' = first \<and> (\<forall>d \<in> set rest. depthOf depths d \<le> depthOf depths first)) \<or>
      (\<exists>pre post. rest = pre @ h' # post \<and> depthOf depths first < m' \<and>
         (\<forall>d \<in> set pre. depthOf depths d < m') \<and>
         (\<forall>d \<in> set post. depthOf depths d \<le> m'))"
    by auto
  from alt show ?thesis
  proof
    assume "h' = first \<and> (\<forall>d \<in> set rest. depthOf depths d \<le> depthOf depths first)"
    then have "deps = [] @ h' # rest \<and> (\<forall>d \<in> set []. depthOf depths d < depthOf depths h') \<and>
        (\<forall>d \<in> set rest. depthOf depths d \<le> depthOf depths h')"
      using deps by simp
    with host show ?thesis by blast
  next
    assume "\<exists>pre post. rest = pre @ h' # post \<and> depthOf depths first < m' \<and>
         (\<forall>d \<in> set pre. depthOf depths d < m') \<and>
         (\<forall>d \<in> set post. depthOf depths d \<le> m')"
    then obtain pre post where p: "rest = pre @ h' # post" "depthOf depths first < m'"
      "\<forall>d \<in> set pre. depthOf depths d < m'" "\<forall>d \<in> set post. depthOf depths d \<le> m'"
      by blast
    then have "deps = (first # pre) @ h' # post \<and>
        (\<forall>d \<in> set (first # pre). depthOf depths d < depthOf depths h') \<and>
        (\<forall>d \<in> set post. depthOf depths d \<le> depthOf depths h')"
      using deps m' by auto
    with host show ?thesis by blast
  qed
qed

section \<open>The executor's completion signal when its operations fail\<close>

lemma runTerraform_error_nil:
  "runTerraform acts ops = (calls, outs, Some e) \<Longrightarrow> outs = Map.empty"
  by (auto simp: runTerraform_def split: sum.splits prod.splits)

text \<open>
  C1, as stated, fails: \<open>TerraformWorkflow\<close> calls \<open>signalParent(outputs)\<close> before it looks
  at the error of \<open>runTerraform\<close>. Here \<open>init\<close> fails for a hosted executor, and the
  \<open>workspace-finished\<close> signal for \<open>subnets\<close> is still sent to the orchestrator.
\<close>

theorem failed_executor_signals_counterexample:
  "snd (snd (runTerraform failingInit (Operations subnetsWs))) = Some (InitFailed ''boom'')
   \<and> orchestratorID hostedInfo = ''orchestrator''
   \<and> map fst (sent (TerraformWorkflow failingInit hostedInfo subnetsWs [])) = [''orchestrator'']
   \<and> map (\<lambda>s. sigName (snd s)) (sent (TerraformWorkflow failingInit hostedInfo subnetsWs []))
       = [''subnets'']"
  by (simp add: TerraformWorkflow_def runTerraform_def operationStep_def failingInit_def
      hostedInfo_def subnetsWs_def signalParent_def orchestratorID_def)

text \<open>
  C1, amended: an executor that knows an orchestrator and whose operation sequence fails
  sends exactly one \<open>workspace-finished\<close> signal to it, with its name and nil outputs,
  then returns the error; it never enters hosting mode.
\<close>

theorem failed_executor_signals:
  assumes "runTerraform acts (Operations ws) = (calls, outs, Some e)"
    and "orchestratorID info \<noteq> []"
  shows "sent (TerraformWorkflow acts info ws inbox)
           = [(orchestratorID info, \<lparr>sigName = Name ws, sigOutputs = Map.empty\<rparr>)]
         \<and> returned (TerraformWorkflow acts info ws inbox) = WorkflowReturned (Inl e)
         \<and> hostActions (TerraformWorkflow acts info ws inbox) = []"
  using assms runTerraform_error_nil[OF assms(1)]
  by (simp add: TerraformWorkflow_def signalParent_def)

theorem failed_executor_signals_witness:
  "runTerraform failingInit (Operations subnetsWs)
     = ([TerraformInit], Map.empty, Some (InitFailed ''boom''))
   \<and> orchestratorID hostedInfo \<noteq> []
   \<and> sent (TerraformWorkflow failingInit hostedInfo subnetsWs [Shutdown])
           = [(orchestratorID hostedInfo, \<lparr>sigName = Name subnetsWs, sigOutputs = Map.empty\<rparr>)]
   \<and> returned (TerraformWorkflow failingInit hostedInfo subnetsWs [Shutdown])
           = WorkflowReturned (Inl (InitFailed ''boom''))"
proof -
  have run: "runTerraform failingInit (Operations subnetsWs)
      = ([TerraformInit], Map.empty, Some (InitFailed ''boom''))"
    by (simp add: runTerraform_def operationStep_def failingInit_def subnetsWs_def)
  have orch: "orchestratorID hostedInfo \<noteq> []"
    by (simp add: orchestratorID_def hostedInfo_def)
  from failed_executor_signals[OF run orch, of "[Shutdown]"] run orch show ?thesis by simp
qed

section \<open>Apply is skipped when the plan reports no changes\<close>













section \<open>Evaluating the validator\<close>


lemma itdRun_AtWorkspace:
  "itdRun index source (AtWorkspace target) =
     (case map_of index target of
        None \<Rightarrow> Some False
      | Some ws \<Rightarrow> itdRun index source (OverDeps (DependsOn ws)))"
  by (subst itdRun.simps) simp

lemma itdRun_OverDeps_Nil: "itdRun index source (OverDeps []) = Some False"
  by (subst itdRun.simps) simp

lemma itdRun_OverDeps_Cons:
  "itdRun index source (OverDeps (dep # rest)) =
     (if dep = source then Some True
      else Option.bind (itdRun index source (AtWorkspace dep))
             (\<lambda>found. if found then Some True else itdRun index source (OverDeps rest)))"
  by (subst itdRun.simps) simp

lemmas itdRun_eval = itdRun_AtWorkspace itdRun_OverDeps_Nil itdRun_OverDeps_Cons

lemma blank_Nil: "blank [] = True"
  by (subst blank.simps) simp

lemma blank_Cons:
  "blank (c # cs) =
     (if spaceWidth (c # cs) = 0 then False else blank (drop (spaceWidth (c # cs)) (c # cs)))"
  by (subst blank.simps) simp

lemmas blank_eval = blank_Nil blank_Cons

lemma fanInConfig_index:
  "indexLoop (Workspaces fanInConfig) []
     = Inr [(''a'', rootWs ''a''), (''b'', rootWs ''b''), (''c'', consumerWs)]"
  by (simp add: fanInConfig_def rootWs_def consumerWs_def blank_eval spaceWidth_def isSupportedKind_def)

lemma fanInConfig_valid: "ValidateInfrastructureConfig fanInConfig = Some None"
  unfolding ValidateInfrastructureConfig_def fanInConfig_index
  by (simp add: fanInConfig_def rootWs_def consumerWs_def lookupWs_def itdRun_eval
     isTransitivelyDependent_def mapA_def mapB_def mapMissing_def ValidateWorkspaceOperations_def)

section \<open>What the started executor receives\<close>


lemma startWorkspace_events:
  "\<exists>new. events (startWorkspace rt depths ws st) = events st @ new \<and> new \<noteq> [] \<and>
     (\<forall>e \<in> set new. launched e = Some (resolveInputs (workspaceOutputs st) ws))"
  by (auto simp: startWorkspace_def startRoot_def Let_def split: option.splits)

text \<open>
  C3, as stated, fails when two mappings of a workspace name the same target variable:
  the configuration is valid, the output \<open>x\<close> of \<open>a\<close> is stored, yet the executor of
  \<open>c\<close> receives for \<open>v\<close> the value of the later mapping, from \<open>b\<close>.
\<close>

theorem input_mapping_counterexample:
  "ValidateInfrastructureConfig fanInConfig = Some None
   \<and> consumerWs \<in> set (Workspaces fanInConfig)
   \<and> mapA \<in> set (Inputs consumerWs)
   \<and> sourceValue (workspaceOutputs afterAB) mapA = Some (JString ''1'')
   \<and> map (\<lambda>e. map_option (\<lambda>ws. ExtraVars ws (TargetVar mapA)) (launched e))
        (events (startWorkspace deliveringRuntime Map.empty consumerWs afterAB))
       = [Some (Some (JNumber 2))]"
proof -
  have "consumerWs \<in> set (Workspaces fanInConfig)"
    by (simp add: fanInConfig_def)
  moreover have "mapA \<in> set (Inputs consumerWs)"
    by (simp add: consumerWs_def)
  moreover have "sourceValue (workspaceOutputs afterAB) mapA = Some (JString ''1'')"
    by (simp add: sourceValue_def afterAB_def twoSources_def mapA_def)
  moreover have "map (\<lambda>e. map_option (\<lambda>ws. ExtraVars ws (TargetVar mapA)) (launched e))
        (events (startWorkspace deliveringRuntime Map.empty consumerWs afterAB))
       = [Some (Some (JNumber 2))]"
    by (simp add: startWorkspace_def startRoot_def resolveInputs_def sourceValue_def
      consumerWs_def mapA_def mapB_def mapMissing_def afterAB_def twoSources_def
      deliveringRuntime_def chooseHost_def depthOf_def)
  ultimately show ?thesis using fanInConfig_valid by simp
qed

text \<open>
  C3, amended: every event by which \<open>startWorkspace\<close> launches \<open>w\<close> carries a workspace
  whose \<open>extraVars\<close> hold, for a mapping whose source output is stored, that stored value
  unchanged, unless a later mapping of \<open>w\<close> with the same target also finds its source
  (the later one then wins); a mapping whose source output is absent is skipped, the
  result being the one the other mappings give on the configured \<open>extraVars\<close>.
\<close>

theorem input_mapping_resolved:
  assumes "Inputs w = pre @ mapping # post"
  shows "\<exists>new. events (startWorkspace rt depths w st) = events st @ new \<and> new \<noteq> [] \<and>
     (\<forall>e \<in> set new. \<exists>ws'. launched e = Some ws' \<and>
        (\<forall>val. sourceValue (workspaceOutputs st) mapping = Some val \<and>
               (\<forall>m \<in> set post. TargetVar m = TargetVar mapping
                   \<longrightarrow> sourceValue (workspaceOutputs st) m = None)
           \<longrightarrow> ExtraVars ws' (TargetVar mapping) = Some val) \<and>
        (sourceValue (workspaceOutputs st) mapping = None
           \<longrightarrow> ExtraVars ws' = resolveLoop (workspaceOutputs st) (pre @ post) (ExtraVars w)))"
proof -
  have res: "ExtraVars (resolveInputs (workspaceOutputs st) w)
      = resolveLoop (workspaceOutputs st) (pre @ mapping # post) (ExtraVars w)"
    using assms by (simp add: resolveInputs_def)
  from startWorkspace_events[of rt depths w st] obtain new where
    new: "events (startWorkspace rt depths w st) = events st @ new" "new \<noteq> []"
      "\<forall>e \<in> set new. launched e = Some (resolveInputs (workspaceOutputs st) w)"
    by blast
  have "\<forall>e \<in> set new. \<exists>ws'. launched e = Some ws' \<and>
        (\<forall>val. sourceValue (workspaceOutputs st) mapping = Some val \<and>
               (\<forall>m \<in> set post. TargetVar m = TargetVar mapping
                   \<longrightarrow> sourceValue (workspaceOutputs st) m = None)
           \<longrightarrow> ExtraVars ws' (TargetVar mapping) = Some val) \<and>
        (sourceValue (workspaceOutputs st) mapping = None
           \<longrightarrow> ExtraVars ws' = resolveLoop (workspaceOutputs st) (pre @ post) (ExtraVars w))"
    using new(3) res resolveLoop_present[of "workspaceOutputs st" mapping _ post pre "ExtraVars w"]
      resolveLoop_skip[of "workspaceOutputs st" mapping pre post "ExtraVars w"]
    by auto
  with new(1,2) show ?thesis by blast
qed

theorem input_mapping_resolved_witness:
  "Inputs consumerWs = [mapA] @ mapB # [mapMissing]
   \<and> sourceValue (workspaceOutputs afterAB) mapB = Some (JNumber 2)
   \<and> sourceValue (workspaceOutputs afterAB) mapMissing = None
   \<and> map (\<lambda>e. map_option (\<lambda>ws. (ExtraVars ws ''v'', ExtraVars ws ''w'')) (launched e))
        (events (startWorkspace deliveringRuntime Map.empty consumerWs afterAB))
       = [Some (Some (JNumber 2), None)]"
proof -
  have i: "Inputs consumerWs = [mapA] @ mapB # [mapMissing]"
    by (simp add: consumerWs_def)
  have b: "sourceValue (workspaceOutputs afterAB) mapB = Some (JNumber 2)"
    and m: "sourceValue (workspaceOutputs afterAB) mapMissing = None"
    by (simp_all add: sourceValue_def afterAB_def twoSources_def mapB_def mapMissing_def)
  have ev: "map (\<lambda>e. map_option (\<lambda>ws. (ExtraVars ws ''v'', ExtraVars ws ''w'')) (launched e))
        (events (startWorkspace deliveringRuntime Map.empty consumerWs afterAB))
       = [Some (Some (JNumber 2), None)]"
    by (simp add: startWorkspace_def startRoot_def resolveInputs_def sourceValue_def
      consumerWs_def mapA_def mapB_def mapMissing_def afterAB_def twoSources_def
      deliveringRuntime_def chooseHost_def depthOf_def)
  from input_mapping_resolved[OF i, of deliveringRuntime Map.empty afterAB] i b m ev
  show ?thesis by simp
qed

section \<open>Cycle detection\<close>

lemma closed_reach:
  "(d, x) \<in> (depEdges index)\<^sup>* \<Longrightarrow> closedUnder index S \<Longrightarrow> d \<in> S \<Longrightarrow> x \<in> S"
  by (induction rule: rtrancl_induct) (auto simp: closedUnder_def depEdges_def)

lemma dfs_keeps_visiting:
  "dfs index name st = Inr st' \<Longrightarrow> fst st' = fst st"
  "dfsDeps index deps st = Inr st' \<Longrightarrow> fst st' = fst st"
proof (induction index name st and index deps st arbitrary: st' and st' rule: dfs_dfsDeps.induct)
  case (1 index name visiting visited)
  then show ?case
    by (auto split: if_splits sum.splits prod.splits)
next
  case (2 index st)
  then show ?case by simp
next
  case (3 index dep rest st)
  then show ?case
    by (auto split: sum.splits)
qed

lemma dfs_success:
  "dfs index name st = Inr st' \<Longrightarrow> goodVisited index (snd st) \<Longrightarrow>
     fst st' = fst st \<and> snd st \<subseteq> snd st' \<and> name \<in> snd st'
     \<and> (snd st' - snd st) \<inter> fst st = {} \<and> goodVisited index (snd st')"
  "dfsDeps index deps st = Inr st' \<Longrightarrow> goodVisited index (snd st) \<Longrightarrow>
     fst st' = fst st \<and> snd st \<subseteq> snd st' \<and> set deps \<subseteq> snd st'
     \<and> (snd st' - snd st) \<inter> fst st = {} \<and> goodVisited index (snd st')"
proof (induction index name st and index deps st arbitrary: st' and st' rule: dfs_dfsDeps.induct)
  case (1 index name visiting visited)
  show ?case
  proof (cases "name \<in> visited")
    case True
    with 1 show ?thesis by (auto split: if_splits)
  next
    case False
    from "1.prems"(1) have nv: "name \<notin> visiting" by (auto split: if_splits)
    from "1.prems"(1) nv False obtain vg vd where
      run: "dfsDeps index (DependsOn (lookupWs index name)) (insert name visiting, visited) = Inr (vg, vd)"
      and st': "st' = (vg - {name}, insert name vd)"
      by (auto split: sum.splits prod.splits)
    from "1.IH"[OF nv False run] "1.prems"(2)
    have vg: "vg = insert name visiting" and sub: "visited \<subseteq> vd"
      and deps: "succs index name \<subseteq> vd"
      and new: "(vd - visited) \<inter> insert name visiting = {}"
      and good: "goodVisited index vd"
      by (auto simp: succs_def)
    have notin: "name \<notin> vd" using new False by auto
    have closed: "closedUnder index (insert name vd)"
      using good deps by (auto simp: goodVisited_def closedUnder_def)
    have acyc: "(name, name) \<notin> (depEdges index)\<^sup>+"
    proof
      assume "(name, name) \<in> (depEdges index)\<^sup>+"
      then obtain d where d: "(name, d) \<in> depEdges index" and r: "(d, name) \<in> (depEdges index)\<^sup>*"
        by (meson tranclD)
      from d deps have "d \<in> vd" by (auto simp: depEdges_def)
      with closed_reach[OF r] good have "name \<in> vd" by (auto simp: goodVisited_def)
      with notin show False by simp
    qed
    have "goodVisited index (insert name vd)"
      using closed acyc good by (auto simp: goodVisited_def)
    then show ?thesis
      using st' vg sub new nv by auto
  qed
next
  case (2 index st)
  then show ?case by simp
next
  case (3 index dep rest st)
  from "3.prems"(1) obtain st1 where s1: "dfs index dep st = Inr st1"
    and s2: "dfsDeps index rest st1 = Inr st'"
    by (auto split: sum.splits)
  from "3.IH"(1)[OF s1 "3.prems"(2)]
  have a: "fst st1 = fst st" "snd st \<subseteq> snd st1" "dep \<in> snd st1"
    "(snd st1 - snd st) \<inter> fst st = {}" "goodVisited index (snd st1)" by auto
  from "3.IH"(2)[OF s1 s2 a(5)]
  have b: "fst st' = fst st1" "snd st1 \<subseteq> snd st'" "set rest \<subseteq> snd st'"
    "(snd st' - snd st1) \<inter> fst st1 = {}" "goodVisited index (snd st')" by auto
  from a b show ?case by auto
qed

lemma dfs_error:
  "dfs index name st = Inl err \<Longrightarrow> (\<forall>s \<in> fst st. (s, name) \<in> (depEdges index)\<^sup>+) \<Longrightarrow>
     \<exists>x. err = DependencyCycle x \<and> (x, x) \<in> (depEdges index)\<^sup>+"
  "dfsDeps index deps st = Inl err \<Longrightarrow>
     (\<forall>s \<in> fst st. \<forall>d \<in> set deps. (s, d) \<in> (depEdges index)\<^sup>+) \<Longrightarrow>
     \<exists>x. err = DependencyCycle x \<and> (x, x) \<in> (depEdges index)\<^sup>+"
proof (induction index name st and index deps st arbitrary: err and err rule: dfs_dfsDeps.induct)
  case (1 index name visiting visited)
  show ?case
  proof (cases "name \<in> visiting")
    case True
    with 1 show ?thesis by auto
  next
    case nv: False
    with "1.prems"(1) have nd: "name \<notin> visited" by (auto split: if_splits)
    from "1.prems"(1) nv nd have
      run: "dfsDeps index (DependsOn (lookupWs index name)) (insert name visiting, visited) = Inl err"
      by (auto split: sum.splits prod.splits)
    have "\<forall>s \<in> fst (insert name visiting, visited).
            \<forall>d \<in> set (DependsOn (lookupWs index name)). (s, d) \<in> (depEdges index)\<^sup>+"
    proof (intro ballI)
      fix s d assume s: "s \<in> fst (insert name visiting, visited)"
        and d: "d \<in> set (DependsOn (lookupWs index name))"
      from d have e: "(name, d) \<in> depEdges index" by (simp add: depEdges_def succs_def)
      show "(s, d) \<in> (depEdges index)\<^sup>+"
      proof (cases "s = name")
        case True
        with e show ?thesis by auto
      next
        case False
        with s "1.prems"(2) have "(s, name) \<in> (depEdges index)\<^sup>+" by auto
        with e show ?thesis by (meson trancl.trancl_into_trancl)
      qed
    qed
    from "1.IH"[OF nv nd run this] show ?thesis .
  qed
next
  case (2 index st)
  then show ?case by simp
next
  case (3 index dep rest st)
  show ?case
  proof (cases "dfs index dep st")
    case (Inl e)
    with "3.prems"(1) have "e = err" by simp
    with Inl "3.IH"(1)[of err] "3.prems"(2) show ?thesis by auto
  next
    case (Inr st1)
    with "3.prems"(1) have s2: "dfsDeps index rest st1 = Inl err" by simp
    from dfs_keeps_visiting(1)[OF Inr] have "fst st1 = fst st" .
    with "3.IH"(2)[OF Inr s2] "3.prems"(2) show ?thesis by auto
  qed
qed


lemma update_fresh:
  "k \<notin> fst ` set al \<Longrightarrow> AList.update k v al = al @ [(k, v)]"
  by (induction al) auto

lemma indexLoop_result:
  "indexLoop workspaces index0 = Inr index \<Longrightarrow> distinct (map fst index0) \<Longrightarrow>
     index = index0 @ map (\<lambda>ws. (Name ws, ws)) workspaces \<and> distinct (map fst index)"
proof (induction workspaces arbitrary: index0)
  case Nil
  then show ?case by simp
next
  case (Cons ws rest)
  from Cons.prems(1) have fresh: "map_of index0 (Name ws) = None"
    and run: "indexLoop rest (AList.update (Name ws) ws index0) = Inr index"
    by (auto split: if_splits)
  from fresh have nf: "Name ws \<notin> fst ` set index0" by (simp add: map_of_eq_None_iff)
  have upd: "AList.update (Name ws) ws index0 = index0 @ [(Name ws, ws)]"
    using nf by (rule update_fresh)
  have d: "distinct (map fst (AList.update (Name ws) ws index0))"
    using Cons.prems(2) nf by (simp add: upd)
  from Cons.IH[OF run d] have "index = (index0 @ [(Name ws, ws)]) @ map (\<lambda>ws. (Name ws, ws)) rest"
    and "distinct (map fst index)" unfolding upd by blast+
  then show ?case by simp
qed

lemma index_edges:
  assumes "indexLoop workspaces [] = Inr index"
  shows "depEdges index = configEdges workspaces"
proof -
  from indexLoop_result[OF assms] have idx: "index = map (\<lambda>ws. (Name ws, ws)) workspaces"
    and dist: "distinct (map fst index)" by auto
  have look: "\<And>ws. ws \<in> set workspaces \<Longrightarrow> lookupWs index (Name ws) = ws"
  proof -
    fix ws assume "ws \<in> set workspaces"
    then have "(Name ws, ws) \<in> set index" by (auto simp: idx)
    with dist have "map_of index (Name ws) = Some ws" by simp
    then show "lookupWs index (Name ws) = ws" by (simp add: lookupWs_def)
  qed
  have none: "\<And>n. n \<notin> Name ` set workspaces \<Longrightarrow> DependsOn (lookupWs index n) = []"
  proof -
    fix n assume "n \<notin> Name ` set workspaces"
    then have "n \<notin> fst ` set index" by (auto simp: idx)
    then have "map_of index n = None" by (simp add: map_of_eq_None_iff)
    then show "DependsOn (lookupWs index n) = []" by (simp add: lookupWs_def zeroWorkspace_def)
  qed
  show ?thesis
  proof (intro set_eqI iffI; clarify)
    fix n d assume "(n, d) \<in> depEdges index"
    then have d: "d \<in> set (DependsOn (lookupWs index n))" by (simp add: depEdges_def succs_def)
    then have "n \<in> Name ` set workspaces" using none by fastforce
    then obtain ws where ws: "ws \<in> set workspaces" "n = Name ws" by auto
    with d look show "(n, d) \<in> configEdges workspaces" by (auto simp: configEdges_def)
  next
    fix n d assume "(n, d) \<in> configEdges workspaces"
    then obtain ws where ws: "ws \<in> set workspaces" "n = Name ws" "d \<in> set (DependsOn ws)"
      by (auto simp: configEdges_def)
    with look show "(n, d) \<in> depEdges index" by (auto simp: depEdges_def succs_def)
  qed
qed

lemma cycle_detected:
  assumes idx: "indexLoop workspaces [] = Inr index"
    and cyc: "(n, n) \<in> (configEdges workspaces)\<^sup>+"
  shows "\<exists>x. dfsDeps index (map Name workspaces) ({}, {}) = Inl (DependencyCycle x)
           \<and> (x, x) \<in> (configEdges workspaces)\<^sup>+"
proof (cases "dfsDeps index (map Name workspaces) ({}, {})")
  case (Inl err)
  from dfs_error(2)[OF Inl] index_edges[OF idx] Inl show ?thesis by auto
next
  case (Inr st')
  have "goodVisited index (snd ({}::string set, {}::string set))"
    by (simp add: goodVisited_def closedUnder_def)
  from dfs_success(2)[OF Inr this]
  have names: "set (map Name workspaces) \<subseteq> snd st'" and good: "goodVisited index (snd st')"
    by auto
  from cyc obtain d where "(n, d) \<in> configEdges workspaces" by (meson tranclD)
  then have "n \<in> Name ` set workspaces" by (auto simp: configEdges_def)
  with names have "n \<in> snd st'" by auto
  with good have "(n, n) \<notin> (depEdges index)\<^sup>+" by (auto simp: goodVisited_def)
  with cyc index_edges[OF idx] show ?thesis by simp
qed

text \<open>Blank strings: white space only, in any UTF-8 encoding of a white-space rune.\<close>

lemma blank_samples:
  "blank [CHR 0xC2, CHR 0xA0]" "blank ''  ''" "\<not> blank [CHR 0xC2]" "\<not> blank '' a''"
  "blank [CHR 0x20, CHR 0xE2, CHR 0x80, CHR 0x8A, CHR 0x09]"
  by (simp_all add: blank_eval spaceWidth_def)

lemma indexLoop_passes:
  "(\<exists>index. indexLoop workspaces index0 = Inr index) =
     (distinct (map Name workspaces) \<and> Name ` set workspaces \<inter> fst ` set index0 = {}
      \<and> (\<forall>u \<in> set workspaces. \<not> blank (Name u) \<and> \<not> blank (Dir u)
             \<and> isSupportedKind (if Kind u = [] then ''terraform'' else Kind u)))"
proof (induction workspaces arbitrary: index0)
  case Nil
  then show ?case by simp
next
  case (Cons ws rest)
  have keys: "fst ` set (AList.update (Name ws) ws index0) = insert (Name ws) (fst ` set index0)"
    by (simp add: dom_update)
  have look: "(map_of index0 (Name ws) \<noteq> None) = (Name ws \<in> fst ` set index0)"
    by (simp add: map_of_eq_None_iff)
  show ?case
  proof (cases "blank (Name ws) \<or> Name ws \<in> fst ` set index0 \<or> blank (Dir ws)
            \<or> \<not> isSupportedKind (if Kind ws = [] then ''terraform'' else Kind ws)")
    case True
    then have "\<exists>err. indexLoop (ws # rest) index0 = Inl err"
      unfolding indexLoop.simps look by auto
    then have "\<not> (\<exists>index. indexLoop (ws # rest) index0 = Inr index)" by auto
    moreover from True have "\<not> (distinct (map Name (ws # rest))
      \<and> Name ` set (ws # rest) \<inter> fst ` set index0 = {}
      \<and> (\<forall>u \<in> set (ws # rest). \<not> blank (Name u) \<and> \<not> blank (Dir u)
             \<and> isSupportedKind (if Kind u = [] then ''terraform'' else Kind u)))"
      by auto
    ultimately show ?thesis by blast
  next
    case False
    then have "indexLoop (ws # rest) index0 = indexLoop rest (AList.update (Name ws) ws index0)"
      unfolding indexLoop.simps look by simp
    then have "(\<exists>index. indexLoop (ws # rest) index0 = Inr index) =
      (distinct (map Name rest)
       \<and> Name ` set rest \<inter> insert (Name ws) (fst ` set index0) = {}
       \<and> (\<forall>u \<in> set rest. \<not> blank (Name u) \<and> \<not> blank (Dir u)
             \<and> isSupportedKind (if Kind u = [] then ''terraform'' else Kind u)))"
      using Cons.IH[of "AList.update (Name ws) ws index0"] unfolding keys by simp
    also have "\<dots> = (distinct (map Name (ws # rest))
      \<and> Name ` set (ws # rest) \<inter> fst ` set index0 = {}
      \<and> (\<forall>u \<in> set (ws # rest). \<not> blank (Name u) \<and> \<not> blank (Dir u)
             \<and> isSupportedKind (if Kind u = [] then ''terraform'' else Kind u)))"
      using False by auto
    finally show ?thesis .
  qed
qed

lemma indexLoop_error:
  "indexLoop workspaces index0 = Inl e \<Longrightarrow>
     \<exists>pre w post. workspaces = pre @ w # post
       \<and> (\<exists>index. indexLoop pre index0 = Inr index)
       \<and> e = (if blank (Name w) then EmptyName
              else if Name w \<in> fst ` set index0 \<union> Name ` set pre then DuplicateName (Name w)
              else if blank (Dir w) then MissingDir (Name w)
              else UnsupportedKind (if Kind w = [] then ''terraform'' else Kind w) (Name w))
       \<and> (blank (Name w) \<or> Name w \<in> fst ` set index0 \<union> Name ` set pre \<or> blank (Dir w)
            \<or> \<not> isSupportedKind (if Kind w = [] then ''terraform'' else Kind w))"
proof (induction workspaces arbitrary: index0)
  case Nil
  then show ?case by simp
next
  case (Cons ws rest)
  have look: "(map_of index0 (Name ws) \<noteq> None) = (Name ws \<in> fst ` set index0)"
    by (simp add: map_of_eq_None_iff)
  show ?case
  proof (cases "blank (Name ws) \<or> Name ws \<in> fst ` set index0 \<or> blank (Dir ws)
            \<or> \<not> isSupportedKind (if Kind ws = [] then ''terraform'' else Kind ws)")
    case True
    then have "e = (if blank (Name ws) then EmptyName
              else if Name ws \<in> fst ` set index0 \<union> Name ` set [] then DuplicateName (Name ws)
              else if blank (Dir ws) then MissingDir (Name ws)
              else UnsupportedKind (if Kind ws = [] then ''terraform'' else Kind ws) (Name ws))"
      using Cons.prems unfolding indexLoop.simps look by (auto split: if_splits)
    moreover have "ws # rest = [] @ ws # rest" by simp
    moreover have "\<exists>index. indexLoop [] index0 = Inr index" by simp
    moreover have "blank (Name ws) \<or> Name ws \<in> fst ` set index0 \<union> Name ` set [] \<or> blank (Dir ws)
            \<or> \<not> isSupportedKind (if Kind ws = [] then ''terraform'' else Kind ws)"
      using True by simp
    ultimately show ?thesis by blast
  next
    case False
    then have run: "indexLoop rest (AList.update (Name ws) ws index0) = Inl e"
      using Cons.prems unfolding indexLoop.simps look by (simp split: if_splits)
    have keys: "fst ` set (AList.update (Name ws) ws index0) = insert (Name ws) (fst ` set index0)"
      by (simp add: dom_update)
    from Cons.IH[OF run] obtain pre w post index where
      split: "rest = pre @ w # post"
      and ok: "indexLoop pre (AList.update (Name ws) ws index0) = Inr index"
      and e: "e = (if blank (Name w) then EmptyName
              else if Name w \<in> fst ` set (AList.update (Name ws) ws index0) \<union> Name ` set pre
                then DuplicateName (Name w)
              else if blank (Dir w) then MissingDir (Name w)
              else UnsupportedKind (if Kind w = [] then ''terraform'' else Kind w) (Name w))"
      and bad: "blank (Name w) \<or> Name w \<in> fst ` set (AList.update (Name ws) ws index0) \<union> Name ` set pre
            \<or> blank (Dir w)
            \<or> \<not> isSupportedKind (if Kind w = [] then ''terraform'' else Kind w)"
      by blast
    have s: "fst ` set (AList.update (Name ws) ws index0) \<union> Name ` set pre
        = fst ` set index0 \<union> Name ` set (ws # pre)"
      unfolding keys by auto
    have "ws # rest = (ws # pre) @ w # post" using split by simp
    moreover have "\<exists>index. indexLoop (ws # pre) index0 = Inr index"
      using ok False unfolding indexLoop.simps look by simp
    ultimately show ?thesis using e bad unfolding s by blast
  qed
qed

text \<open>
  C6, as stated, fails for a cyclic configuration that also breaks a check made before
  the cycle detection: here \<open>a\<close> and \<open>b\<close> depend on each other and \<open>a\<close> has no \<open>dir\<close>;
  the error returned is the missing directory, not the cycle.
\<close>

theorem cycle_rejected_counterexample:
  "(''a'', ''a'') \<in> (configEdges (Workspaces cycleNoDir))\<^sup>+
   \<and> ValidateInfrastructureConfig cycleNoDir = Some (Some (MissingDir ''a''))"
proof -
  have "(''a'', ''b'') \<in> configEdges (Workspaces cycleNoDir)"
    and "(''b'', ''a'') \<in> configEdges (Workspaces cycleNoDir)"
    by (simp_all add: configEdges_def cycleNoDir_def rootWs_def)
  then have "(''a'', ''a'') \<in> (configEdges (Workspaces cycleNoDir))\<^sup>+" by auto
  moreover have "ValidateInfrastructureConfig cycleNoDir = Some (Some (MissingDir ''a''))"
    by (simp add: ValidateInfrastructureConfig_def cycleNoDir_def rootWs_def blank_eval spaceWidth_def)
  ultimately show ?thesis by simp
qed

text \<open>
  C6, amended: for every configuration whose dependency relation has a cycle (a self-edge
  included), \<open>ValidateInfrastructureConfig\<close> returns an error and \<open>ParentWorkflow\<close> returns
  that error with no event at all, so without launching an executor. The checks of the
  first loop pass (\<open>indexLoop\<close> returns an index) exactly when no name is blank or
  repeated, no dir is blank and every kind is supported; then the error is the cycle
  error, and the workspace it names lies on a cycle. Otherwise the error is that of the
  first workspace that fails one of these checks, after workspaces that pass them all,
  and of the first check it fails: blank name, repeated name, blank dir, unsupported kind.
\<close>

theorem cycle_rejected:
  assumes "(n, n) \<in> (configEdges (Workspaces cfg))\<^sup>+"
  shows "\<exists>err. ValidateInfrastructureConfig cfg = Some (Some err)
     \<and> ParentWorkflow pf rt cfg signals = ([], Returned (Some err))
     \<and> (\<forall>index. indexLoop (Workspaces cfg) [] = Inr index \<longrightarrow>
          (\<exists>x. err = DependencyCycle x \<and> (x, x) \<in> (configEdges (Workspaces cfg))\<^sup>+))
     \<and> ((\<exists>index. indexLoop (Workspaces cfg) [] = Inr index) =
          (distinct (map Name (Workspaces cfg))
           \<and> (\<forall>u \<in> set (Workspaces cfg). \<not> blank (Name u) \<and> \<not> blank (Dir u)
                  \<and> isSupportedKind (if Kind u = [] then ''terraform'' else Kind u))))
     \<and> (\<forall>e. indexLoop (Workspaces cfg) [] = Inl e \<longrightarrow>
          err = e
          \<and> (\<exists>pre w post. Workspaces cfg = pre @ w # post
                \<and> distinct (map Name pre)
                \<and> (\<forall>u \<in> set pre. \<not> blank (Name u) \<and> \<not> blank (Dir u)
                       \<and> isSupportedKind (if Kind u = [] then ''terraform'' else Kind u))
                \<and> e = (if blank (Name w) then EmptyName
                       else if Name w \<in> Name ` set pre then DuplicateName (Name w)
                       else if blank (Dir w) then MissingDir (Name w)
                       else UnsupportedKind (if Kind w = [] then ''terraform'' else Kind w)
                              (Name w))
                \<and> (blank (Name w) \<or> Name w \<in> Name ` set pre \<or> blank (Dir w)
                     \<or> \<not> isSupportedKind (if Kind w = [] then ''terraform'' else Kind w))))"
proof -
  from assms obtain d where "(n, d) \<in> configEdges (Workspaces cfg)" by (meson tranclD)
  then have ne: "Workspaces cfg \<noteq> []" by (auto simp: configEdges_def)
  have passes: "(\<exists>index. indexLoop (Workspaces cfg) [] = Inr index) =
          (distinct (map Name (Workspaces cfg))
           \<and> (\<forall>u \<in> set (Workspaces cfg). \<not> blank (Name u) \<and> \<not> blank (Dir u)
                  \<and> isSupportedKind (if Kind u = [] then ''terraform'' else Kind u)))"
    using indexLoop_passes[of "Workspaces cfg" "[]"] by simp
  have first: "\<exists>pre w post. Workspaces cfg = pre @ w # post
                \<and> distinct (map Name pre)
                \<and> (\<forall>u \<in> set pre. \<not> blank (Name u) \<and> \<not> blank (Dir u)
                       \<and> isSupportedKind (if Kind u = [] then ''terraform'' else Kind u))
                \<and> e = (if blank (Name w) then EmptyName
                       else if Name w \<in> Name ` set pre then DuplicateName (Name w)
                       else if blank (Dir w) then MissingDir (Name w)
                       else UnsupportedKind (if Kind w = [] then ''terraform'' else Kind w)
                              (Name w))
                \<and> (blank (Name w) \<or> Name w \<in> Name ` set pre \<or> blank (Dir w)
                     \<or> \<not> isSupportedKind (if Kind w = [] then ''terraform'' else Kind w))"
    if "indexLoop (Workspaces cfg) [] = Inl e" for e
  proof -
    from indexLoop_error[OF that] show ?thesis
    proof (elim exE conjE)
      fix pre w post index
      assume split: "Workspaces cfg = pre @ w # post"
        and ok: "indexLoop pre [] = Inr index"
        and e: "e = (if blank (Name w) then EmptyName
              else if Name w \<in> fst ` set [] \<union> Name ` set pre then DuplicateName (Name w)
              else if blank (Dir w) then MissingDir (Name w)
              else UnsupportedKind (if Kind w = [] then ''terraform'' else Kind w) (Name w))"
        and bad: "blank (Name w) \<or> Name w \<in> fst ` set [] \<union> Name ` set pre \<or> blank (Dir w)
            \<or> \<not> isSupportedKind (if Kind w = [] then ''terraform'' else Kind w)"
      from ok have "distinct (map Name pre)
          \<and> (\<forall>u \<in> set pre. \<not> blank (Name u) \<and> \<not> blank (Dir u)
                 \<and> isSupportedKind (if Kind u = [] then ''terraform'' else Kind u))"
        using indexLoop_passes[of pre "[]"] by auto
      with split e bad show ?thesis
        by (intro exI[of _ pre] exI[of _ w] exI[of _ post]) simp
    qed
  qed
  have "\<exists>err. ValidateInfrastructureConfig cfg = Some (Some err)
     \<and> (\<forall>index. indexLoop (Workspaces cfg) [] = Inr index \<longrightarrow>
          (\<exists>x. err = DependencyCycle x \<and> (x, x) \<in> (configEdges (Workspaces cfg))\<^sup>+))
     \<and> (\<forall>e. indexLoop (Workspaces cfg) [] = Inl e \<longrightarrow> err = e)"
  proof (cases "indexLoop (Workspaces cfg) []")
    case (Inl err)
    with ne show ?thesis by (simp add: ValidateInfrastructureConfig_def)
  next
    case (Inr index)
    from cycle_detected[OF Inr assms] obtain x where
      "dfsDeps index (map Name (Workspaces cfg)) ({}, {}) = Inl (DependencyCycle x)"
      "(x, x) \<in> (configEdges (Workspaces cfg))\<^sup>+" by blast
    with ne Inr show ?thesis by (simp add: ValidateInfrastructureConfig_def)
  qed
  then show ?thesis
  proof (elim exE conjE)
    fix err
    assume v: "ValidateInfrastructureConfig cfg = Some (Some err)"
      and c: "\<forall>index. indexLoop (Workspaces cfg) [] = Inr index \<longrightarrow>
          (\<exists>x. err = DependencyCycle x \<and> (x, x) \<in> (configEdges (Workspaces cfg))\<^sup>+)"
      and l: "\<forall>e. indexLoop (Workspaces cfg) [] = Inl e \<longrightarrow> err = e"
    have pw: "ParentWorkflow pf rt cfg signals = ([], Returned (Some err))"
      using v by (simp add: ParentWorkflow_def)
    show ?thesis
    proof (rule exI[of _ err], intro conjI allI impI)
      show "ValidateInfrastructureConfig cfg = Some (Some err)" by (rule v)
      show "ParentWorkflow pf rt cfg signals = ([], Returned (Some err))" by (rule pw)
      show "\<exists>x. err = DependencyCycle x \<and> (x, x) \<in> (configEdges (Workspaces cfg))\<^sup>+"
        if "indexLoop (Workspaces cfg) [] = Inr index" for index
        using c that by simp
      show "(\<exists>index. indexLoop (Workspaces cfg) [] = Inr index) =
          (distinct (map Name (Workspaces cfg))
           \<and> (\<forall>u \<in> set (Workspaces cfg). \<not> blank (Name u) \<and> \<not> blank (Dir u)
                  \<and> isSupportedKind (if Kind u = [] then ''terraform'' else Kind u)))"
        by (rule passes)
      show "err = e" if "indexLoop (Workspaces cfg) [] = Inl e" for e
        using l that by simp
      show "\<exists>pre w post. Workspaces cfg = pre @ w # post
                \<and> distinct (map Name pre)
                \<and> (\<forall>u \<in> set pre. \<not> blank (Name u) \<and> \<not> blank (Dir u)
                       \<and> isSupportedKind (if Kind u = [] then ''terraform'' else Kind u))
                \<and> e = (if blank (Name w) then EmptyName
                       else if Name w \<in> Name ` set pre then DuplicateName (Name w)
                       else if blank (Dir w) then MissingDir (Name w)
                       else UnsupportedKind (if Kind w = [] then ''terraform'' else Kind w)
                              (Name w))
                \<and> (blank (Name w) \<or> Name w \<in> Name ` set pre \<or> blank (Dir w)
                     \<or> \<not> isSupportedKind (if Kind w = [] then ''terraform'' else Kind w))"
        if "indexLoop (Workspaces cfg) [] = Inl e" for e
        using first[OF that] .
    qed
  qed
qed

theorem cycle_rejected_witness:
  "(''a'', ''a'') \<in> (configEdges (Workspaces cycleAB))\<^sup>+
   \<and> ValidateInfrastructureConfig cycleAB = Some (Some (DependencyCycle ''a''))
   \<and> ParentWorkflow unixPlatform deliveringRuntime cycleAB []
        = ([], Returned (Some (DependencyCycle ''a'')))
   \<and> (''a'', ''a'') \<in> (configEdges (Workspaces cycleNoDir))\<^sup>+
   \<and> indexLoop (Workspaces cycleNoDir) [] = Inl (MissingDir ''a'')
   \<and> ParentWorkflow unixPlatform deliveringRuntime cycleNoDir []
        = ([], Returned (Some (MissingDir ''a'')))"
proof -
  have "(''a'', ''b'') \<in> configEdges (Workspaces cycleAB)"
    and "(''b'', ''a'') \<in> configEdges (Workspaces cycleAB)"
    by (simp_all add: configEdges_def cycleAB_def rootWs_def)
  then have cyc: "(''a'', ''a'') \<in> (configEdges (Workspaces cycleAB))\<^sup>+" by auto
  have "(''a'', ''b'') \<in> configEdges (Workspaces cycleNoDir)"
    and "(''b'', ''a'') \<in> configEdges (Workspaces cycleNoDir)"
    by (simp_all add: configEdges_def cycleNoDir_def rootWs_def)
  then have cyc2: "(''a'', ''a'') \<in> (configEdges (Workspaces cycleNoDir))\<^sup>+" by auto
  have i: "indexLoop (Workspaces cycleAB) []
      = Inr [(''a'', (rootWs ''a'')\<lparr>DependsOn := [''b'']\<rparr>), (''b'', (rootWs ''b'')\<lparr>DependsOn := [''a'']\<rparr>)]"
    by (simp add: cycleAB_def rootWs_def blank_eval spaceWidth_def isSupportedKind_def)
  have i2: "indexLoop (Workspaces cycleNoDir) [] = Inl (MissingDir ''a'')"
    by (simp add: cycleNoDir_def rootWs_def blank_eval spaceWidth_def)
  have v: "ValidateInfrastructureConfig cycleAB = Some (Some (DependencyCycle ''a''))"
    by (simp add: ValidateInfrastructureConfig_def cycleAB_def rootWs_def blank_eval spaceWidth_def
        isSupportedKind_def lookupWs_def)
  have v2: "ValidateInfrastructureConfig cycleNoDir = Some (Some (MissingDir ''a''))"
    by (simp add: ValidateInfrastructureConfig_def cycleNoDir_def rootWs_def blank_eval
        spaceWidth_def)
  from cycle_rejected[OF cyc, of unixPlatform deliveringRuntime "[]"] v
  have p: "ParentWorkflow unixPlatform deliveringRuntime cycleAB []
        = ([], Returned (Some (DependencyCycle ''a'')))"
    by (elim exE conjE) simp
  from cycle_rejected[OF cyc2, of unixPlatform deliveringRuntime "[]"] v2
  have p2: "ParentWorkflow unixPlatform deliveringRuntime cycleNoDir []
        = ([], Returned (Some (MissingDir ''a'')))"
    by (elim exE conjE) simp
  from cyc cyc2 i2 v p p2 show ?thesis by (intro conjI)
qed

section \<open>CalculateDepths and the choice of the host\<close>

lemma depthRun_GetDepth:
  "depthRun index (GetDepth name) depths =
     (case depths name of
        Some d \<Rightarrow> Some (d, depths)
      | None \<Rightarrow>
          if length (DependsOn (lookupWs index name)) = 0
          then Some (0, depths(name \<mapsto> 0))
          else Option.bind (depthRun index (DepLoop (DependsOn (lookupWs index name)) (- 1)) depths)
                 (\<lambda>r. Some (fst r + 1, (snd r)(name \<mapsto> fst r + 1))))"
  by (subst depthRun.simps) simp

lemma depthRun_DepLoop_Nil:
  "depthRun index (DepLoop [] maxDepDepth) depths = Some (maxDepDepth, depths)"
  by (subst depthRun.simps) simp

lemma depthRun_DepLoop_Cons:
  "depthRun index (DepLoop (dep # rest) maxDepDepth) depths =
     Option.bind (depthRun index (GetDepth dep) depths)
       (\<lambda>r. depthRun index (DepLoop rest (if fst r > maxDepDepth then fst r else maxDepDepth))
               (snd r))"
  by (subst depthRun.simps) simp

lemmas depthRun_eval = depthRun_GetDepth depthRun_DepLoop_Nil depthRun_DepLoop_Cons

lemma entryOK_extend:
  assumes "entryOK index depths name k" and "depths \<subseteq>\<^sub>m depths'"
  shows "entryOK index depths' name k"
proof (cases "DependsOn (lookupWs index name) = []")
  case True
  with assms show ?thesis by (simp add: entryOK_def)
next
  case False
  with assms(1) have sub: "set (DependsOn (lookupWs index name)) \<subseteq> dom depths"
    and k: "k = 1 + Max (depthOf depths ` set (DependsOn (lookupWs index name)))" and nn: "0 \<le> k"
    by (auto simp: entryOK_def)
  have same: "\<And>d. d \<in> set (DependsOn (lookupWs index name)) \<Longrightarrow> depthOf depths' d = depthOf depths d"
  proof -
    fix d assume "d \<in> set (DependsOn (lookupWs index name))"
    with sub obtain v where "depths d = Some v" by auto
    moreover from this assms(2) have "depths' d = Some v" by (auto simp: map_le_def dom_def)
    ultimately show "depthOf depths' d = depthOf depths d" by (simp add: depthOf_def)
  qed
  then have "depthOf depths' ` set (DependsOn (lookupWs index name))
      = depthOf depths ` set (DependsOn (lookupWs index name))" by auto
  moreover have "set (DependsOn (lookupWs index name)) \<subseteq> dom depths'"
    using sub assms(2) by (auto simp: map_le_def dom_def)
  ultimately show ?thesis using False k nn by (simp add: entryOK_def)
qed

lemma depthOf_nonneg:
  "consistentDepths index depths \<Longrightarrow> 0 \<le> depthOf depths d"
  by (auto simp: consistentDepths_def entryOK_def depthOf_def split: option.splits)

lemma depLoop_ok:
  assumes each: "\<And>dep depths. dep \<in> set deps \<Longrightarrow> consistentDepths index depths \<Longrightarrow>
      \<exists>k depths'. depthRun index (GetDepth dep) depths = Some (k, depths')
        \<and> consistentDepths index depths' \<and> depths \<subseteq>\<^sub>m depths' \<and> depths' dep = Some k"
    and "consistentDepths index depths"
  shows "\<exists>mx' depths'. depthRun index (DepLoop deps mx) depths = Some (mx', depths')
        \<and> consistentDepths index depths' \<and> depths \<subseteq>\<^sub>m depths' \<and> set deps \<subseteq> dom depths'
        \<and> mx' = Max (insert mx (depthOf depths' ` set deps))"
  using assms
proof (induction deps arbitrary: depths mx)
  case Nil
  then show ?case by (simp add: depthRun_DepLoop_Nil)
next
  case (Cons dep rest)
  from Cons.prems(1)[of dep depths] Cons.prems(2) obtain k depths1 where
    g: "depthRun index (GetDepth dep) depths = Some (k, depths1)"
    and c1: "consistentDepths index depths1" and le1: "depths \<subseteq>\<^sub>m depths1"
    and k: "depths1 dep = Some k" by auto
  let ?mx1 = "if k > mx then k else mx"
  have each': "\<And>d ds. d \<in> set rest \<Longrightarrow> consistentDepths index ds \<Longrightarrow>
      \<exists>k depths'. depthRun index (GetDepth d) ds = Some (k, depths')
        \<and> consistentDepths index depths' \<and> ds \<subseteq>\<^sub>m depths' \<and> depths' d = Some k"
    using Cons.prems(1) by auto
  from Cons.IH[OF each' c1, of ?mx1] obtain mx' depths' where
    l: "depthRun index (DepLoop rest ?mx1) depths1 = Some (mx', depths')"
    and c': "consistentDepths index depths'" and le': "depths1 \<subseteq>\<^sub>m depths'"
    and dom': "set rest \<subseteq> dom depths'"
    and mx': "mx' = Max (insert ?mx1 (depthOf depths' ` set rest))" by blast
  have run: "depthRun index (DepLoop (dep # rest) mx) depths = Some (mx', depths')"
    using g l by (auto simp: depthRun_DepLoop_Cons split: if_splits)
  have kd: "depths' dep = Some k" using k le' by (auto simp: map_le_def dom_def)
  then have dk: "depthOf depths' dep = k" by (simp add: depthOf_def)
  have "Max (insert mx (depthOf depths' ` set (dep # rest)))
      = Max (insert ?mx1 (depthOf depths' ` set rest))"
  proof -
    have "insert mx (depthOf depths' ` set (dep # rest))
        = insert mx (insert k (depthOf depths' ` set rest))" using dk by simp
    also have "Max \<dots> = max mx (Max (insert k (depthOf depths' ` set rest)))"
      by (subst Max_insert) auto
    also have "\<dots> = max mx (max k (Max (insert k (depthOf depths' ` set rest))))"
      by (simp add: max_def)
    finally have a: "Max (insert mx (depthOf depths' ` set (dep # rest)))
        = max (max mx k) (Max (insert k (depthOf depths' ` set rest)))"
      by (simp add: max.assoc)
    have b: "Max (insert ?mx1 (depthOf depths' ` set rest))
        = max (max mx k) (Max (insert k (depthOf depths' ` set rest)))"
    proof (cases "set rest = {}")
      case True
      then show ?thesis by (auto simp: max_def)
    next
      case False
      then have ne: "depthOf depths' ` set rest \<noteq> {}" by simp
      have "Max (insert ?mx1 (depthOf depths' ` set rest))
          = max ?mx1 (Max (depthOf depths' ` set rest))"
        using ne by (subst Max_insert) auto
      moreover have "Max (insert k (depthOf depths' ` set rest))
          = max k (Max (depthOf depths' ` set rest))"
        using ne by (subst Max_insert) auto
      ultimately show ?thesis by (auto simp: max_def)
    qed
    from a b show ?thesis by simp
  qed
  with mx' have "mx' = Max (insert mx (depthOf depths' ` set (dep # rest)))" by simp
  moreover have "depths \<subseteq>\<^sub>m depths'" using le1 le' by (rule map_le_trans)
  moreover have "set (dep # rest) \<subseteq> dom depths'" using dom' kd by auto
  ultimately show ?case using run c' by blast
qed


lemma getDepth_ok:
  assumes wf: "wf ((depEdges index)\<inverse>)"
  shows "consistentDepths index depths \<Longrightarrow>
     \<exists>k depths'. depthRun index (GetDepth name) depths = Some (k, depths')
        \<and> consistentDepths index depths' \<and> depths \<subseteq>\<^sub>m depths' \<and> depths' name = Some k"
proof (induction name arbitrary: depths rule: wf_induct_rule[OF wf])
  case (1 name)
  let ?deps = "DependsOn (lookupWs index name)"
  show ?case
  proof (cases "depths name")
    case (Some d)
    then show ?thesis using "1.prems" by (auto simp: depthRun_GetDepth)
  next
    case None
    show ?thesis
    proof (cases "?deps = []")
      case True
      let ?d' = "depths(name \<mapsto> 0)"
      have le: "depths \<subseteq>\<^sub>m ?d'" using None by (auto simp: map_le_def)
      have "consistentDepths index ?d'"
        unfolding consistentDepths_def
      proof (intro allI impI)
        fix n k assume nk: "?d' n = Some k"
        show "entryOK index ?d' n k"
        proof (cases "n = name")
          case True
          with nk \<open>?deps = []\<close> show ?thesis by (simp add: entryOK_def)
        next
          case False
          with nk have "depths n = Some k" by simp
          with "1.prems" have "entryOK index depths n k" by (simp add: consistentDepths_def)
          from entryOK_extend[OF this le] show ?thesis .
        qed
      qed
      then show ?thesis using None True le by (auto simp: depthRun_GetDepth)
    next
      case False
      have each: "\<And>dep ds. dep \<in> set ?deps \<Longrightarrow> consistentDepths index ds \<Longrightarrow>
          \<exists>k depths'. depthRun index (GetDepth dep) ds = Some (k, depths')
            \<and> consistentDepths index depths' \<and> ds \<subseteq>\<^sub>m depths' \<and> depths' dep = Some k"
      proof -
        fix dep ds assume d: "dep \<in> set ?deps" and c: "consistentDepths index ds"
        from d have "(dep, name) \<in> (depEdges index)\<inverse>" by (simp add: depEdges_def succs_def)
        from "1.IH"[OF this c] show "\<exists>k depths'. depthRun index (GetDepth dep) ds = Some (k, depths')
            \<and> consistentDepths index depths' \<and> ds \<subseteq>\<^sub>m depths' \<and> depths' dep = Some k" .
      qed
      from depLoop_ok[OF each "1.prems", of ?deps "- 1"] obtain mx' depths1 where
        l: "depthRun index (DepLoop ?deps (- 1)) depths = Some (mx', depths1)"
        and c1: "consistentDepths index depths1" and le1: "depths \<subseteq>\<^sub>m depths1"
        and dom1: "set ?deps \<subseteq> dom depths1"
        and mx': "mx' = Max (insert (- 1) (depthOf depths1 ` set ?deps))" by blast
      let ?S = "depthOf depths1 ` set ?deps"
      have neS: "?S \<noteq> {}" using False by simp
      have nonneg: "\<forall>x \<in> ?S. 0 \<le> x" using depthOf_nonneg[OF c1] by auto
      have "Max ?S \<in> ?S" using neS by (intro Max_in) auto
      with nonneg have maxS: "0 \<le> Max ?S" by blast
      have "Max (insert (- 1) ?S) = max (- 1) (Max ?S)" using neS by (subst Max_insert) auto
      with maxS mx' have mxS: "mx' = Max ?S" by (simp add: max_def)
      let ?k = "mx' + 1"
      let ?d' = "depths1(name \<mapsto> ?k)"
      have run: "depthRun index (GetDepth name) depths = Some (?k, ?d')"
        using None False l by (simp add: depthRun_GetDepth)
      have okname: "entryOK index depths1 name ?k"
        using False dom1 mxS maxS by (simp add: entryOK_def)
      have same: "depths1 name \<noteq> None \<Longrightarrow> ?d' = depths1"
      proof -
        assume "depths1 name \<noteq> None"
        then obtain k0 where k0: "depths1 name = Some k0" by auto
        with c1 have "entryOK index depths1 name k0" by (simp add: consistentDepths_def)
        with False mxS have "k0 = ?k" by (simp add: entryOK_def)
        with k0 show "?d' = depths1" by (auto simp: fun_upd_idem_iff)
      qed
      have le2: "depths1 \<subseteq>\<^sub>m ?d'"
      proof (cases "depths1 name")
        case None
        then show ?thesis by (auto simp: map_le_def)
      next
        case (Some a)
        with same show ?thesis by simp
      qed
      have "consistentDepths index ?d'"
        unfolding consistentDepths_def
      proof (intro allI impI)
        fix n k assume nk: "?d' n = Some k"
        show "entryOK index ?d' n k"
        proof (cases "n = name")
          case True
          with nk have "k = ?k" by simp
          with okname entryOK_extend[OF _ le2] True show ?thesis by blast
        next
          case False
          with nk have "depths1 n = Some k" by simp
          with c1 have "entryOK index depths1 n k" by (simp add: consistentDepths_def)
          from entryOK_extend[OF this le2] show ?thesis .
        qed
      qed
      moreover have "depths \<subseteq>\<^sub>m ?d'" using le1 le2 by (rule map_le_trans)
      ultimately show ?thesis using run by auto
    qed
  qed
qed

lemma depthsAll_ok:
  assumes wf: "wf ((depEdges index)\<inverse>)"
  shows "consistentDepths index depths \<Longrightarrow>
     \<exists>depths'. depthsAll index names depths = Some depths'
        \<and> consistentDepths index depths' \<and> depths \<subseteq>\<^sub>m depths' \<and> set names \<subseteq> dom depths'"
proof (induction names arbitrary: depths)
  case Nil
  then show ?case by auto
next
  case (Cons name rest)
  from getDepth_ok[OF wf Cons.prems, of name] obtain k depths1 where
    g: "depthRun index (GetDepth name) depths = Some (k, depths1)"
    and c1: "consistentDepths index depths1" and le1: "depths \<subseteq>\<^sub>m depths1"
    and k: "depths1 name = Some k" by blast
  from Cons.IH[OF c1] obtain depths' where
    a: "depthsAll index rest depths1 = Some depths'"
    and c': "consistentDepths index depths'" and le': "depths1 \<subseteq>\<^sub>m depths'"
    and dom': "set rest \<subseteq> dom depths'" by blast
  have "depths' name = Some k" using k le' by (auto simp: map_le_def dom_def)
  moreover have "depths \<subseteq>\<^sub>m depths'" using le1 le' by (rule map_le_trans)
  ultimately show ?case using g a c' dom' by auto
qed


lemma mapIndex_lookup:
  assumes "distinct (map Name workspaces)"
  shows "ws \<in> set workspaces \<Longrightarrow> lookupWs (map (\<lambda>ws. (Name ws, ws)) workspaces) (Name ws) = ws"
    and "n \<notin> Name ` set workspaces \<Longrightarrow>
          DependsOn (lookupWs (map (\<lambda>ws. (Name ws, ws)) workspaces) n) = []"
proof -
  let ?index = "map (\<lambda>ws. (Name ws, ws)) workspaces"
  have dist: "distinct (map fst ?index)" using assms by (simp add: comp_def)
  {
    assume "ws \<in> set workspaces"
    then have "(Name ws, ws) \<in> set ?index" by auto
    with dist have "map_of ?index (Name ws) = Some ws" by (rule_tac map_of_is_SomeI)
    then show "lookupWs ?index (Name ws) = ws" by (simp add: lookupWs_def)
  }
  {
    assume "n \<notin> Name ` set workspaces"
    then have "n \<notin> fst ` set ?index" by auto
    then have "map_of ?index n = None" by (simp add: map_of_eq_None_iff)
    then show "DependsOn (lookupWs ?index n) = []" by (simp add: lookupWs_def zeroWorkspace_def)
  }
qed

lemma mapIndex_edges:
  assumes "distinct (map Name workspaces)"
  shows "depEdges (map (\<lambda>ws. (Name ws, ws)) workspaces) = configEdges workspaces"
proof (intro set_eqI iffI; clarify)
  fix n d assume "(n, d) \<in> depEdges (map (\<lambda>ws. (Name ws, ws)) workspaces)"
  then have d: "d \<in> set (DependsOn (lookupWs (map (\<lambda>ws. (Name ws, ws)) workspaces) n))"
    by (simp add: depEdges_def succs_def)
  then have "n \<in> Name ` set workspaces" using mapIndex_lookup(2)[OF assms] by fastforce
  then obtain ws where ws: "ws \<in> set workspaces" "n = Name ws" by auto
  with d mapIndex_lookup(1)[OF assms] show "(n, d) \<in> configEdges workspaces"
    by (auto simp: configEdges_def)
next
  fix n d assume "(n, d) \<in> configEdges workspaces"
  then obtain ws where ws: "ws \<in> set workspaces" "n = Name ws" "d \<in> set (DependsOn ws)"
    by (auto simp: configEdges_def)
  with mapIndex_lookup(1)[OF assms] show "(n, d) \<in> depEdges (map (\<lambda>ws. (Name ws, ws)) workspaces)"
    by (auto simp: depEdges_def succs_def)
qed

lemma buildIndex_distinct:
  "distinct (map fst index0 @ map Name workspaces) \<Longrightarrow>
     buildIndex workspaces index0 = index0 @ map (\<lambda>ws. (Name ws, ws)) workspaces"
proof (induction workspaces arbitrary: index0)
  case Nil
  then show ?case by simp
next
  case (Cons ws rest)
  have nf: "Name ws \<notin> fst ` set index0" using Cons.prems by auto
  have upd: "AList.update (Name ws) ws index0 = index0 @ [(Name ws, ws)]"
    using nf by (rule update_fresh)
  have "distinct (map fst (index0 @ [(Name ws, ws)]) @ map Name rest)"
    using Cons.prems by auto
  from Cons.IH[OF this] show ?case by (simp add: upd)
qed

lemma finite_configEdges: "finite (configEdges workspaces)"
proof -
  have "configEdges workspaces \<subseteq> (\<Union>ws \<in> set workspaces. {Name ws} \<times> set (DependsOn ws))"
    by (auto simp: configEdges_def)
  moreover have "finite (\<Union>ws \<in> set workspaces. {Name ws} \<times> set (DependsOn ws))" by simp
  ultimately show ?thesis by (rule finite_subset)
qed

lemma normalize_names:
  "Name (normalizeWorkspace pf base ws) = Name ws"
  "DependsOn (normalizeWorkspace pf base ws) = DependsOn ws"
  by (simp_all add: normalizeWorkspace_def Let_def)

lemma normalize_edges:
  "configEdges (Workspaces (NormalizeInfrastructureConfig pf cfg)) = configEdges (Workspaces cfg)"
  by (auto simp: NormalizeInfrastructureConfig_def Let_def configEdges_def normalize_names)

lemma normalize_map_Name:
  "map Name (Workspaces (NormalizeInfrastructureConfig pf cfg)) = map Name (Workspaces cfg)"
  by (simp add: NormalizeInfrastructureConfig_def Let_def normalize_names comp_def)

lemma valid_acyclic:
  assumes "ValidateInfrastructureConfig cfg = Some None"
  shows "distinct (map Name (Workspaces cfg)) \<and> wf ((configEdges (Workspaces cfg))\<inverse>)"
proof -
  from assms obtain index where idx: "indexLoop (Workspaces cfg) [] = Inr index"
    by (auto simp: ValidateInfrastructureConfig_def split: if_splits sum.splits)
  with assms obtain st' where run: "dfsDeps index (map Name (Workspaces cfg)) ({}, {}) = Inr st'"
    by (auto simp: ValidateInfrastructureConfig_def split: if_splits sum.splits)
  from indexLoop_result[OF idx] have "index = map (\<lambda>ws. (Name ws, ws)) (Workspaces cfg)"
    and "distinct (map fst index)" by auto
  then have dist: "distinct (map Name (Workspaces cfg))" by (simp add: comp_def)
  have "goodVisited index (snd ({}::string set, {}::string set))"
    by (simp add: goodVisited_def closedUnder_def)
  from dfs_success(2)[OF run this]
  have names: "set (map Name (Workspaces cfg)) \<subseteq> snd st'" and good: "goodVisited index (snd st')"
    by auto
  have "acyclic (configEdges (Workspaces cfg))"
    unfolding acyclic_def
  proof (intro allI notI)
    fix n assume cyc: "(n, n) \<in> (configEdges (Workspaces cfg))\<^sup>+"
    then obtain d where "(n, d) \<in> configEdges (Workspaces cfg)" by (meson tranclD)
    then have "n \<in> Name ` set (Workspaces cfg)" by (auto simp: configEdges_def)
    with names have "n \<in> snd st'" by auto
    with good have "(n, n) \<notin> (depEdges index)\<^sup>+" by (auto simp: goodVisited_def)
    with cyc index_edges[OF idx] show False by simp
  qed
  with finite_configEdges have "wf ((configEdges (Workspaces cfg))\<inverse>)"
    by (rule finite_acyclic_wf_converse)
  with dist show ?thesis by simp
qed

lemma startWorkspace_host:
  assumes "chooseHost depths (DependsOn ws) = Some host"
  shows "\<exists>delivered rest. events (startWorkspace rt depths ws st) = events st @
      SignalStartChild (case map_of (runningWorkflows st) host of None \<Rightarrow> [] | Some wid \<Rightarrow> wid)
        (resolveInputs (workspaceOutputs st) ws) delivered # rest"
proof -
  have "DependsOn (resolveInputs (workspaceOutputs st) ws) = DependsOn ws"
    by (simp add: resolveInputs_def)
  with assms show ?thesis
    by (auto simp: startWorkspace_def Let_def startRoot_def)
qed

text \<open>
  Claim C7. \<open>ParentWorkflow\<close> computes the depths of the normalised configuration only
  after \<open>ValidateInfrastructureConfig\<close> has accepted the raw one. For every accepted
  configuration \<open>CalculateDepths\<close> returns, and the map it returns gives every workspace
  without dependencies the depth 0 and every other workspace one more than the greatest
  depth among its dependencies. For a workspace with dependencies, the host chosen by
  \<open>startWorkspace\<close> is an entry of \<open>DependsOn\<close> whose depth is strictly greater than the
  depth of every entry before it and at least the depth of every entry after it (the
  first dependency of greatest depth), and the \<open>start-child\<close> signal goes to the workflow
  id recorded for that host.
\<close>

theorem host_is_deepest_dependency:
  assumes "ValidateInfrastructureConfig cfg = Some None"
  shows "\<exists>depths. CalculateDepths (Workspaces (NormalizeInfrastructureConfig pf cfg)) = Some depths
    \<and> (\<forall>w \<in> set (Workspaces (NormalizeInfrastructureConfig pf cfg)).
         depths (Name w)
           = Some (if DependsOn w = [] then 0 else 1 + Max (depthOf depths ` set (DependsOn w)))
       \<and> (DependsOn w \<noteq> [] \<longrightarrow>
            (\<exists>host pre post. chooseHost depths (DependsOn w) = Some host
               \<and> DependsOn w = pre @ host # post
               \<and> (\<forall>d \<in> set pre. depthOf depths d < depthOf depths host)
               \<and> (\<forall>d \<in> set post. depthOf depths d \<le> depthOf depths host)
               \<and> (\<forall>rt st. \<exists>delivered rest. events (startWorkspace rt depths w st) = events st @
                     SignalStartChild
                       (case map_of (runningWorkflows st) host of None \<Rightarrow> [] | Some wid \<Rightarrow> wid)
                       (resolveInputs (workspaceOutputs st) w) delivered # rest))))"
proof -
  let ?wss = "Workspaces (NormalizeInfrastructureConfig pf cfg)"
  let ?index = "map (\<lambda>ws. (Name ws, ws)) ?wss"
  from valid_acyclic[OF assms] have dist0: "distinct (map Name (Workspaces cfg))"
    and wf0: "wf ((configEdges (Workspaces cfg))\<inverse>)" by auto
  have dist: "distinct (map Name ?wss)" using dist0 by (simp add: normalize_map_Name)
  have bi: "buildIndex ?wss [] = ?index" using buildIndex_distinct[of "[]" ?wss] dist by simp
  have wf: "wf ((depEdges ?index)\<inverse>)"
    using wf0 by (simp add: mapIndex_edges[OF dist] normalize_edges)
  have "consistentDepths ?index Map.empty" by (simp add: consistentDepths_def)
  from depthsAll_ok[OF wf this, of "map Name ?wss"] obtain depths where
    all: "depthsAll ?index (map Name ?wss) Map.empty = Some depths"
    and cons: "consistentDepths ?index depths" and dom: "set (map Name ?wss) \<subseteq> dom depths"
    by blast
  have calc: "CalculateDepths ?wss = Some depths" using all bi by (simp add: CalculateDepths_def)
  have "\<forall>w \<in> set ?wss.
         depths (Name w)
           = Some (if DependsOn w = [] then 0 else 1 + Max (depthOf depths ` set (DependsOn w)))
       \<and> (DependsOn w \<noteq> [] \<longrightarrow>
            (\<exists>host pre post. chooseHost depths (DependsOn w) = Some host
               \<and> DependsOn w = pre @ host # post
               \<and> (\<forall>d \<in> set pre. depthOf depths d < depthOf depths host)
               \<and> (\<forall>d \<in> set post. depthOf depths d \<le> depthOf depths host)
               \<and> (\<forall>rt st. \<exists>delivered rest. events (startWorkspace rt depths w st) = events st @
                     SignalStartChild
                       (case map_of (runningWorkflows st) host of None \<Rightarrow> [] | Some wid \<Rightarrow> wid)
                       (resolveInputs (workspaceOutputs st) w) delivered # rest)))"
  proof (intro ballI conjI impI)
    fix w assume w: "w \<in> set ?wss"
    with dom obtain k where k: "depths (Name w) = Some k" by auto
    with cons have "entryOK ?index depths (Name w) k" by (simp add: consistentDepths_def)
    moreover have "lookupWs ?index (Name w) = w" using mapIndex_lookup(1)[OF dist w] .
    ultimately show "depths (Name w)
           = Some (if DependsOn w = [] then 0 else 1 + Max (depthOf depths ` set (DependsOn w)))"
      using k by (simp add: entryOK_def)
  next
    fix w assume w: "w \<in> set ?wss" and ne: "DependsOn w \<noteq> []"
    from chooseHost_first_max[OF ne, of depths] obtain host pre post where
      h: "chooseHost depths (DependsOn w) = Some host" "DependsOn w = pre @ host # post"
        "\<forall>d \<in> set pre. depthOf depths d < depthOf depths host"
        "\<forall>d \<in> set post. depthOf depths d \<le> depthOf depths host" by blast
    from startWorkspace_host[OF h(1)] h
    show "\<exists>host pre post. chooseHost depths (DependsOn w) = Some host
               \<and> DependsOn w = pre @ host # post
               \<and> (\<forall>d \<in> set pre. depthOf depths d < depthOf depths host)
               \<and> (\<forall>d \<in> set post. depthOf depths d \<le> depthOf depths host)
               \<and> (\<forall>rt st. \<exists>delivered rest. events (startWorkspace rt depths w st) = events st @
                     SignalStartChild
                       (case map_of (runningWorkflows st) host of None \<Rightarrow> [] | Some wid \<Rightarrow> wid)
                       (resolveInputs (workspaceOutputs st) w) delivered # rest)"
      by blast
  qed
  with calc show ?thesis by blast
qed


lemma chainConfig_index:
  "indexLoop (Workspaces chainConfig) []
     = Inr [(''a'', rootWs ''a''), (''b'', (rootWs ''b'')\<lparr>DependsOn := [''a'']\<rparr>),
            (''c'', (rootWs ''c'')\<lparr>DependsOn := [''a'', ''b'']\<rparr>)]"
  by (simp add: chainConfig_def rootWs_def blank_eval spaceWidth_def isSupportedKind_def)

lemma chainConfig_valid: "ValidateInfrastructureConfig chainConfig = Some None"
  unfolding ValidateInfrastructureConfig_def chainConfig_index
  by (simp add: chainConfig_def rootWs_def lookupWs_def itdRun_eval
     isTransitivelyDependent_def ValidateWorkspaceOperations_def)

theorem host_is_deepest_dependency_witness:
  "ValidateInfrastructureConfig chainConfig = Some None
   \<and> (\<exists>depths. CalculateDepths (Workspaces (NormalizeInfrastructureConfig unixPlatform chainConfig))
                  = Some depths
        \<and> map depths [''a'', ''b'', ''c''] = [Some 0, Some 1, Some 2]
        \<and> chooseHost depths [''a'', ''b''] = Some ''b'')"
proof -
  let ?wss = "Workspaces (NormalizeInfrastructureConfig unixPlatform chainConfig)"
  from host_is_deepest_dependency[OF chainConfig_valid, of unixPlatform] obtain depths where
    calc: "CalculateDepths ?wss = Some depths"
    and rec: "\<forall>w \<in> set ?wss. depths (Name w)
           = Some (if DependsOn w = [] then 0 else 1 + Max (depthOf depths ` set (DependsOn w)))"
    by blast
  have names: "map (\<lambda>w. (Name w, DependsOn w)) ?wss
      = [(''a'', []), (''b'', [''a'']), (''c'', [''a'', ''b''])]"
    by (simp add: NormalizeInfrastructureConfig_def chainConfig_def normalize_names Let_def rootWs_def)
  then obtain wa wb wc where wss: "?wss = [wa, wb, wc]"
    and n: "Name wa = ''a''" "DependsOn wa = []" "Name wb = ''b''" "DependsOn wb = [''a'']"
      "Name wc = ''c''" "DependsOn wc = [''a'', ''b'']"
    by (auto simp: map_eq_Cons_conv)
  from rec wss n have a: "depths ''a'' = Some 0" by fastforce
  from rec wss n have "depths ''b'' = Some (1 + Max (depthOf depths ` set [''a'']))"
    by fastforce
  with a have b: "depths ''b'' = Some 1" by (simp add: depthOf_def)
  from rec wss n have "depths ''c'' = Some (1 + Max (depthOf depths ` set [''a'', ''b'']))"
    by fastforce
  with a b have c: "depths ''c'' = Some 2" by (simp add: depthOf_def)
  have "chooseHost depths [''a'', ''b''] = Some ''b''"
    using a b by (simp add: chooseHost_def depthOf_def)
  with calc a b c chainConfig_valid show ?thesis by simp
qed

end
